theory Spec2Isabelle
  imports Complex_Main
begin

unbundle bit_operations_syntax

section \<open>Data model\<close>

text \<open>
  The builders of \<^verbatim>\<open>sharp_geomhelpers.c\<close> fill six parallel arrays of length
  \<^verbatim>\<open>nrings\<close> and pass them to \<^verbatim>\<open>sharp_make_geom_info\<close>.
\<close>

subsection \<open>Machine integers\<close>

text \<open>
  A C \<^verbatim>\<open>int\<close> is a 32-bit and a \<^verbatim>\<open>ptrdiff_t\<close> a 64-bit two's complement
  value. They are modelled by \<^typ>\<open>int\<close> with the wrap-around written out: \<open>c_int\<close>
  stands where the source computes or stores an \<^verbatim>\<open>int\<close>, \<open>c_ptrdiff\<close> where it
  computes a \<^verbatim>\<open>ptrdiff_t\<close>. Wrapping once is the same as wrapping after every
  \<open>+\<close>, \<open>-\<close> and \<open>*\<close>. (C leaves a signed overflow undefined; the wrapped value is
  what two's complement hardware computes.) A loop counter stays below its bound and
  is not wrapped.
\<close>

definition INT_MAX :: int where
  "INT_MAX = 2147483647"

definition c_int :: "int \<Rightarrow> int" where
  "c_int v = (v + 2147483648) mod 4294967296 - 2147483648"

definition c_ptrdiff :: "int \<Rightarrow> int" where
  "c_ptrdiff v = (v + 9223372036854775808) mod 18446744073709551616 - 9223372036854775808"

subsection \<open>Doubles\<close>

text \<open>
  A \<^verbatim>\<open>double\<close> is a finite value, an infinity or a NaN. Finite values are reals
  and the arithmetic on them is exact: rounding, overflow to infinity and the sign
  of zero are not modelled (a zero divisor is read as \<open>+0.0\<close>, which is what an
  \<^verbatim>\<open>int\<close> 0 converts to and what \<open>x - x\<close> gives). The special values follow
  IEEE 754 as C's Annex F has it: \<open>0/0\<close> and \<open>\<infinity> - \<infinity>\<close> are NaN, a NaN operand
  gives NaN, and every ordered comparison with a NaN is false.
\<close>

datatype dbl = Fin real | PInf | NInf | NaN

datatype error = ConfigError | ConvergenceError | OutOfBounds

fun of_i :: "int \<Rightarrow> dbl" where
  "of_i n = Fin (of_int n)"

fun signed_inf :: "bool \<Rightarrow> dbl" where
  "signed_inf neg = (if neg then NInf else PInf)"

fun dneg :: "dbl \<Rightarrow> dbl" where
  "dneg (Fin a) = Fin (- a)"
| "dneg PInf = NInf"
| "dneg NInf = PInf"
| "dneg NaN = NaN"

fun dadd :: "dbl \<Rightarrow> dbl \<Rightarrow> dbl" where
  "dadd NaN y = NaN"
| "dadd x NaN = NaN"
| "dadd (Fin a) (Fin b) = Fin (a + b)"
| "dadd (Fin a) y = y"
| "dadd x (Fin b) = x"
| "dadd PInf PInf = PInf"
| "dadd NInf NInf = NInf"
| "dadd PInf NInf = NaN"
| "dadd NInf PInf = NaN"

fun dmul :: "dbl \<Rightarrow> dbl \<Rightarrow> dbl" where
  "dmul NaN y = NaN"
| "dmul x NaN = NaN"
| "dmul (Fin a) (Fin b) = Fin (a * b)"
| "dmul (Fin a) PInf = (if a = 0 then NaN else signed_inf (a < 0))"
| "dmul (Fin a) NInf = (if a = 0 then NaN else signed_inf (0 < a))"
| "dmul PInf (Fin b) = (if b = 0 then NaN else signed_inf (b < 0))"
| "dmul NInf (Fin b) = (if b = 0 then NaN else signed_inf (0 < b))"
| "dmul PInf PInf = PInf"
| "dmul NInf NInf = PInf"
| "dmul PInf NInf = NInf"
| "dmul NInf PInf = NInf"

fun ddiv :: "dbl \<Rightarrow> dbl \<Rightarrow> dbl" where
  "ddiv NaN y = NaN"
| "ddiv x NaN = NaN"
| "ddiv (Fin a) (Fin b) =
     (if b \<noteq> 0 then Fin (a / b) else if a = 0 then NaN else signed_inf (a < 0))"
| "ddiv (Fin a) y = Fin 0"
| "ddiv PInf (Fin b) = signed_inf (b < 0)"
| "ddiv NInf (Fin b) = signed_inf (0 \<le> b)"
| "ddiv x y = NaN"

instantiation dbl :: "{plus, minus, times, uminus, inverse, ord}"
begin

definition plus_dbl :: "dbl \<Rightarrow> dbl \<Rightarrow> dbl" where
  "plus_dbl x y = dadd x y"

definition minus_dbl :: "dbl \<Rightarrow> dbl \<Rightarrow> dbl" where
  "minus_dbl x y = dadd x (dneg y)"

definition times_dbl :: "dbl \<Rightarrow> dbl \<Rightarrow> dbl" where
  "times_dbl x y = dmul x y"

definition uminus_dbl :: "dbl \<Rightarrow> dbl" where
  "uminus_dbl x = dneg x"

definition divide_dbl :: "dbl \<Rightarrow> dbl \<Rightarrow> dbl" where
  "divide_dbl x y = ddiv x y"

definition inverse_dbl :: "dbl \<Rightarrow> dbl" where
  "inverse_dbl x = ddiv (Fin 1) x"

text \<open>The C comparisons \<^verbatim>\<open><\<close> and \<^verbatim>\<open><=\<close>: false as soon as an operand is a NaN.\<close>

fun less_dbl :: "dbl \<Rightarrow> dbl \<Rightarrow> bool" where
  "less_dbl NaN y = False"
| "less_dbl x NaN = False"
| "less_dbl (Fin a) (Fin b) = (a < b)"
| "less_dbl (Fin a) PInf = True"
| "less_dbl NInf (Fin b) = True"
| "less_dbl NInf PInf = True"
| "less_dbl x y = False"

fun less_eq_dbl :: "dbl \<Rightarrow> dbl \<Rightarrow> bool" where
  "less_eq_dbl NaN y = False"
| "less_eq_dbl x NaN = False"
| "less_eq_dbl (Fin a) (Fin b) = (a \<le> b)"
| "less_eq_dbl x PInf = True"
| "less_eq_dbl NInf y = True"
| "less_eq_dbl x y = False"

instance ..

end

text \<open>The functions of \<^verbatim>\<open>math.h\<close> the source calls, with their domain errors.\<close>

fun fabs :: "dbl \<Rightarrow> dbl" where
  "fabs (Fin a) = Fin \<bar>a\<bar>"
| "fabs NaN = NaN"
| "fabs x = PInf"

fun c_cos :: "dbl \<Rightarrow> dbl" where
  "c_cos (Fin a) = Fin (cos a)"
| "c_cos x = NaN"

fun c_sin :: "dbl \<Rightarrow> dbl" where
  "c_sin (Fin a) = Fin (sin a)"
| "c_sin x = NaN"

fun c_sqrt :: "dbl \<Rightarrow> dbl" where
  "c_sqrt (Fin a) = (if a < 0 then NaN else Fin (sqrt a))"
| "c_sqrt PInf = PInf"
| "c_sqrt x = NaN"

fun c_asin :: "dbl \<Rightarrow> dbl" where
  "c_asin (Fin a) = (if \<bar>a\<bar> \<le> 1 then Fin (arcsin a) else NaN)"
| "c_asin x = NaN"

fun c_acos :: "dbl \<Rightarrow> dbl" where
  "c_acos (Fin a) = (if \<bar>a\<bar> \<le> 1 then Fin (arccos a) else NaN)"
| "c_acos x = NaN"

fun isfinite :: "dbl \<Rightarrow> bool" where
  "isfinite (Fin a) = True"
| "isfinite x = False"

subsection \<open>Ring arrays\<close>

text \<open>
  One pass of a builder's loop over \<open>m\<close> writes cell \<open>m\<close> of each array; \<open>ring\<close> holds
  the six values of one pass, \<open>geom_arrays\<close> the arguments of the call
  \<^verbatim>\<open>sharp_make_geom_info (nrings, nph, ofs, stride_, phi0, theta, NULL, weight, geom_info)\<close>.
\<close>

record ring =
  r_theta :: dbl
  r_nph :: int
  r_phi0 :: dbl
  r_ofs :: int
  r_stride :: int
  r_weight :: dbl

record geom_arrays =
  g_nrings :: int
  g_nph :: "int list"
  g_ofs :: "int list"
  g_stride :: "int list"
  g_phi0 :: "dbl list"
  g_theta :: "dbl list"
  g_weight :: "dbl list"

text \<open>
  Modelled from the spec: \<^verbatim>\<open>sharp_make_geom_info\<close> (the GeomInfoAssembler) is not
  part of the source file; it is an opaque consumer of the per-ring arrays. A builder
  that reaches the call returns \<open>Inr\<close> of the arrays it hands over.
\<close>

definition sharp_make_geom_info :: "int \<Rightarrow> ring list \<Rightarrow> geom_arrays" where
  "sharp_make_geom_info n rs =
     \<lparr>g_nrings = n, g_nph = map r_nph rs, g_ofs = map r_ofs rs,
      g_stride = map r_stride rs, g_phi0 = map r_phi0 rs, g_theta = map r_theta rs,
      g_weight = map r_weight rs\<rparr>"

text \<open>
  Modelled from the spec: \<^verbatim>\<open>UTIL_ASSERT\<close> is a macro of \<^verbatim>\<open>c_utils.h\<close>, which is
  not part of the source file: a hard, process-terminating assertion. The error names
  the spec's class of the failure.
\<close>

definition UTIL_ASSERT :: "bool \<Rightarrow> error \<Rightarrow> error + unit" where
  "UTIL_ASSERT cond e = (if cond then Inr () else Inl e)"

text \<open>The loop \<^verbatim>\<open>for (int m=0; m<nrings; ++m)\<close>: the passes in order, up to the first failure.\<close>

fun for_rings :: "(int \<Rightarrow> error + ring) \<Rightarrow> nat list \<Rightarrow> error + ring list" where
  "for_rings body [] = Inr []"
| "for_rings body (m # ms) =
     (case body (int m) of
        Inl e \<Rightarrow> Inl e
      | Inr r \<Rightarrow> (case for_rings body ms of Inl e \<Rightarrow> Inl e | Inr rs \<Rightarrow> Inr (r # rs)))"

definition pi_d :: dbl where
  "pi_d = Fin pi"

section \<open>HEALPix\<close>

text \<open>Reading \<^verbatim>\<open>weight[i]\<close>: outside the array the C read is undefined, here an error.\<close>

definition read_dbl :: "dbl list \<Rightarrow> int \<Rightarrow> error + dbl" where
  "read_dbl a i = (if 0 \<le> i \<and> i < int (length a) then Inr (a ! nat i) else Inl OutOfBounds)"

text \<open>The fold of ring \<open>m + 1\<close> onto its northern mirror, in exact integers.\<close>

definition northring_of :: "int \<Rightarrow> int \<Rightarrow> int" where
  "northring_of nside m = (let ring = m + 1 in if ring > 2 * nside then 4 * nside - ring else ring)"

text \<open>
  One pass of the loop of \<^verbatim>\<open>sharp_make_weighted_healpix_geom_info\<close>. \<open>ring\<close>,
  \<open>2*nside\<close>, \<open>4*nside-ring\<close>, \<open>4*nside\<close> and the cells of \<open>nph\<close> are \<^verbatim>\<open>int\<close>;
  \<open>npix\<close>, \<open>ncap\<close>, \<open>northring\<close> and the cells of \<open>ofs\<close> are \<^verbatim>\<open>ptrdiff_t\<close>.
\<close>

definition healpix_ring :: "int \<Rightarrow> int \<Rightarrow> dbl list \<Rightarrow> int \<Rightarrow> error + ring" where
  "healpix_ring nside stride weight m =
     (let npix = c_ptrdiff (nside * nside * 12);
          ncap = c_ptrdiff (2 * nside * c_int (nside - 1));
          ring = c_int (m + 1);
          northring = (if ring > c_int (2 * nside) then c_int (4 * nside - ring) else ring);
          (theta, nph, phi0, ofs) =
            (if northring < nside then
               (let nphm = c_int (4 * northring)
                in (Fin 2 * c_asin (of_i northring / (c_sqrt (Fin 6) * of_i nside)),
                    nphm,
                    pi_d / of_i nphm,
                    c_ptrdiff (2 * northring * (northring - 1) * stride)))
             else
               (let fact1 = (Fin 8 * of_i nside) / of_i npix;
                    costheta = of_i (c_ptrdiff (c_int (2 * nside) - northring)) * fact1;
                    nphm = c_int (4 * nside)
                in (c_acos costheta,
                    nphm,
                    (if (northring - nside) AND 1 \<noteq> 0 then Fin 0 else pi_d / of_i nphm),
                    c_ptrdiff ((ncap + (northring - nside) * nphm) * stride))));
          (theta', ofs') =
            (if northring \<noteq> ring
             then (pi_d - theta, c_ptrdiff ((npix - nph) * stride - ofs))
             else (theta, ofs))
      in case read_dbl weight (northring - 1) of
           Inl e \<Rightarrow> Inl e
         | Inr w \<Rightarrow>
             Inr \<lparr>r_theta = theta', r_nph = nph, r_phi0 = phi0, r_ofs = ofs',
                  r_stride = stride, r_weight = Fin 4 * pi_d / of_i npix * w\<rparr>)"

definition sharp_make_weighted_healpix_geom_info :: "int \<Rightarrow> int \<Rightarrow> dbl list \<Rightarrow> error + geom_arrays" where
  "sharp_make_weighted_healpix_geom_info nside stride weight =
     (let nrings = c_int (4 * nside - 1) in
      case for_rings (healpix_ring nside stride weight) [0..<nat nrings] of
        Inl e \<Rightarrow> Inl e
      | Inr rs \<Rightarrow> Inr (sharp_make_geom_info nrings rs))"

text \<open>
  Modelled from the spec: \<^verbatim>\<open>RALLOC(double,2*nside)\<close> and
  \<^verbatim>\<open>SET_ARRAY(weight,0,2*nside,1)\<close> are macros of \<^verbatim>\<open>c_utils.h\<close>, which is not part
  of the source file. The spec's default weight array has the length \<open>2 * nside\<close> the
  weighted builder asks for, every cell 1.
\<close>

definition sharp_make_healpix_geom_info :: "int \<Rightarrow> int \<Rightarrow> error + geom_arrays" where
  "sharp_make_healpix_geom_info nside stride =
     (let weight = replicate (nat (2 * nside)) (Fin 1) in
      sharp_make_weighted_healpix_geom_info nside stride weight)"

text \<open>
  Pixel count and storage offset of ring \<open>m\<close> in exact integers: what \<open>healpix_ring\<close>
  computes as long as nothing wraps.
\<close>

definition ring_nph :: "int \<Rightarrow> int \<Rightarrow> int" where
  "ring_nph nside m = (let nr = northring_of nside m in if nr < nside then 4 * nr else 4 * nside)"

definition ring_ofs :: "int \<Rightarrow> int \<Rightarrow> int \<Rightarrow> int" where
  "ring_ofs nside stride m =
     (let npix = nside * nside * 12; ncap = 2 * nside * (nside - 1);
          nr = northring_of nside m;
          ofs = (if nr < nside then 2 * nr * (nr - 1) * stride
                 else (ncap + (nr - nside) * (4 * nside)) * stride)
      in if nr \<noteq> m + 1 then (npix - ring_nph nside m) * stride - ofs else ofs)"

text \<open>The pixel indices \<open>[offset, offset + nphi)\<close> of ring \<open>m\<close> (stride 1).\<close>

definition ring_interval :: "geom_arrays \<Rightarrow> nat \<Rightarrow> int set" where
  "ring_interval g m = {g_ofs g ! m ..< g_ofs g ! m + g_nph g ! m}"

text \<open>The range the spec gives for \<open>phi0\<close>: \<open>0 <= phi0 && phi0 < 2*pi\<close>.\<close>

definition phi0_in_range :: "dbl \<Rightarrow> bool" where
  "phi0_in_range x = (Fin 0 \<le> x \<and> x < Fin 2 * pi_d)"

text \<open>Cell \<open>m\<close> of the arrays handed over, and whether pixel \<open>p\<close> lies on some ring.\<close>

definition nph_at :: "nat \<Rightarrow> geom_arrays \<Rightarrow> int" where
  "nph_at m g = g_nph g ! m"

definition phi0_at :: "nat \<Rightarrow> geom_arrays \<Rightarrow> dbl" where
  "phi0_at m g = g_phi0 g ! m"

definition pixel_covered :: "int \<Rightarrow> geom_arrays \<Rightarrow> bool" where
  "pixel_covered p g = list_ex (\<lambda>m. p \<in> ring_interval g m) [0..<length (g_ofs g)]"

section \<open>Gauss-Legendre nodes and weights\<close>

text \<open>C's integer division truncates towards zero.\<close>

definition c_div :: "int \<Rightarrow> int \<Rightarrow> int" where
  "c_div a b = sgn a * sgn b * (\<bar>a\<bar> div \<bar>b\<bar>)"

definition write_dbl :: "dbl list \<Rightarrow> int \<Rightarrow> dbl \<Rightarrow> error + dbl list" where
  "write_dbl a i v = (if 0 \<le> i \<and> i < int (length a) then Inr (a[nat i := v]) else Inl OutOfBounds)"

text \<open>The loop \<^verbatim>\<open>for (k=2; k<=n; k++)\<close> of the three-term recurrence; it returns \<open>(P_1, P0)\<close>.\<close>

function legendre_loop :: "int \<Rightarrow> dbl \<Rightarrow> int \<Rightarrow> dbl \<Rightarrow> dbl \<Rightarrow> dbl \<times> dbl" where
  "legendre_loop n x0 k P_1 P0 =
     (if k \<le> n then
        (let P_2 = P_1;
             P_1' = P0;
             P0' = x0 * P_1' + (of_i k - Fin 1) / of_i k * (x0 * P_1' - P_2)
         in legendre_loop n x0 (k + 1) P_1' P0')
      else (P_1, P0))"
  by pat_completeness auto
termination
  by (relation "measure (\<lambda>(n, x0, k, P_1, P0). nat (n + 1 - k))") auto

declare legendre_loop.simps [simp del]

text \<open>
  The head of the \<^verbatim>\<open>while(1)\<close> body: the polynomial \<open>P0\<close> at \<open>x0\<close> and its
  derivative \<open>dpdx\<close>.
\<close>

definition legendre_eval :: "int \<Rightarrow> dbl \<Rightarrow> dbl \<times> dbl" where
  "legendre_eval n x0 =
     (let (P_1, P0) = legendre_loop n x0 2 (Fin 1) x0;
          dpdx = (x0 * P0 - P_1) * of_i n / (x0 * x0 - Fin 1)
      in (P0, dpdx))"

definition newton_eps :: dbl where
  "newton_eps = Fin (3 / 10 ^ 14)"

text \<open>
  The \<^verbatim>\<open>while(1)\<close> loop, from the state \<open>(x0, dobreak, j)\<close>. The evaluation of the
  polynomial is the argument \<open>ev\<close> (\<open>gauss_legendre_tbl\<close> passes \<open>legendre_eval n\<close>), so
  that what is proved of the loop's control does not depend on the arithmetic of the
  evaluation. The loop returns \<open>(x0, dpdx)\<close> as they stand at the \<^verbatim>\<open>break\<close>;
  \<^verbatim>\<open>UTIL_ASSERT(++j<100,"convergence problem")\<close> is the other way out.
\<close>

function newton_loop :: "(dbl \<Rightarrow> dbl \<times> dbl) \<Rightarrow> dbl \<Rightarrow> bool \<Rightarrow> int \<Rightarrow> error + dbl \<times> dbl" where
  "newton_loop ev x0 dobreak j =
     (let (P0, dpdx) = ev x0;
          x1 = x0 - P0 / dpdx;
          dx = x0 - x1
      in if dobreak then Inr (x1, dpdx)
         else
           (let dobreak' = (if fabs dx \<le> newton_eps then True else dobreak);
                j' = j + 1
            in if j' < 100 then newton_loop ev x1 dobreak' j'
               else Inl ConvergenceError))"
  by pat_completeness auto
termination
  by (relation "measure (\<lambda>(ev, x0, dobreak, j). nat (100 - j))") auto

declare newton_loop.simps [simp del]

text \<open>One pass seen from outside: the updated \<open>x0\<close>, and the \<open>dx\<close> the pass tests.\<close>

definition newton_step :: "(dbl \<Rightarrow> dbl \<times> dbl) \<Rightarrow> dbl \<Rightarrow> dbl" where
  "newton_step ev x0 = (let (P0, dpdx) = ev x0 in x0 - P0 / dpdx)"

definition newton_dx :: "(dbl \<Rightarrow> dbl \<times> dbl) \<Rightarrow> dbl \<Rightarrow> dbl" where
  "newton_dx ev x0 = x0 - newton_step ev x0"

text \<open>Pass \<open>k\<close> (counted from 1) of the loop started at \<open>x0\<close> observes \<open>|dx| <= eps\<close>.\<close>

definition conv_on_pass :: "(dbl \<Rightarrow> dbl \<times> dbl) \<Rightarrow> dbl \<Rightarrow> nat \<Rightarrow> bool" where
  "conv_on_pass ev x0 k = (fabs (newton_dx ev ((newton_step ev ^^ (k - 1)) x0)) \<le> newton_eps)"

definition first_conv :: "(dbl \<Rightarrow> dbl \<times> dbl) \<Rightarrow> dbl \<Rightarrow> nat \<Rightarrow> bool" where
  "first_conv ev x0 k =
     (1 \<le> k \<and> conv_on_pass ev x0 k \<and> (\<forall>p. 1 \<le> p \<and> p < k \<longrightarrow> \<not> conv_on_pass ev x0 p))"

text \<open>
  The loop \<^verbatim>\<open>for (i=1; i<=m; ++i)\<close>: the start value, the Newton loop, and the four
  writes \<^verbatim>\<open>x[i-1] = -x0; x[n-i] = x0; w[i-1] = w[n-i] = ...\<close>.
\<close>

function gl_loop :: "int \<Rightarrow> int \<Rightarrow> dbl \<Rightarrow> dbl \<Rightarrow> int \<Rightarrow> dbl list \<Rightarrow> dbl list
    \<Rightarrow> error + dbl list \<times> dbl list" where
  "gl_loop n m t0 t1 i x w =
     (if i \<le> m then
        (let x0 = c_cos (pi_d * of_i (c_int (push_bit 2 i - 1)) * t1) * t0 in
         case newton_loop (legendre_eval n) x0 False 0 of
           Inl e \<Rightarrow> Inl e
         | Inr (x0, dpdx) \<Rightarrow>
            (case write_dbl x (i - 1) (- x0) of Inl e \<Rightarrow> Inl e | Inr x' \<Rightarrow>
             case write_dbl x' (n - i) x0 of Inl e \<Rightarrow> Inl e | Inr x'' \<Rightarrow>
             let v = Fin 2 / ((Fin 1 - x0 * x0) * dpdx * dpdx) in
             case write_dbl w (n - i) v of Inl e \<Rightarrow> Inl e | Inr w' \<Rightarrow>
             case write_dbl w' (i - 1) v of Inl e \<Rightarrow> Inl e | Inr w'' \<Rightarrow>
               gl_loop n m t0 t1 (i + 1) x'' w''))
      else Inr (x, w))"
  by pat_completeness auto
termination
  by (relation "measure (\<lambda>(n, m, t0, t1, i, x, w). nat (m + 1 - i))") auto

declare gl_loop.simps [simp del]

definition gauss_legendre_tbl :: "int \<Rightarrow> dbl list \<Rightarrow> dbl list \<Rightarrow> error + dbl list \<times> dbl list" where
  "gauss_legendre_tbl n x w =
     (let m = drop_bit 1 (c_int (n + 1));
          t0 = Fin 1 - (Fin 1 - Fin 1 / of_i n) / (Fin 8 * of_i n * of_i n);
          t1 = Fin 1 / (Fin 4 * of_i n + Fin 2)
      in gl_loop n m t0 t1 1 x w)"

text \<open>
  The node of pass \<open>i\<close> of \<open>gauss_legendre_tbl\<close>'s loop: the start value and the Newton
  loop, as the body computes them before its four writes.
\<close>

definition gl_node :: "int \<Rightarrow> int \<Rightarrow> error + dbl \<times> dbl" where
  "gl_node n i =
     (let t0 = Fin 1 - (Fin 1 - Fin 1 / of_i n) / (Fin 8 * of_i n * of_i n);
          t1 = Fin 1 / (Fin 4 * of_i n + Fin 2);
          x0 = c_cos (pi_d * of_i (c_int (push_bit 2 i - 1)) * t1) * t0
      in newton_loop (legendre_eval n) x0 False 0)"

text \<open>
  Modelled from the spec: \<^verbatim>\<open>RALLOC\<close> is a macro of \<^verbatim>\<open>c_utils.h\<close>, which is not
  part of the source file (generic array allocation). The cells of a fresh array are
  indeterminate in C; the model fills them with NaN. \<open>gauss_legendre_tbl\<close> writes every
  cell of its two arrays before the builder reads them.
\<close>

definition RALLOC :: "int \<Rightarrow> dbl list" where
  "RALLOC n = replicate (nat n) NaN"

section \<open>Gauss, ECP and Driscoll-Healy builders\<close>

definition gauss_ring :: "int \<Rightarrow> int \<Rightarrow> int \<Rightarrow> dbl list \<Rightarrow> dbl list \<Rightarrow> int \<Rightarrow> error + ring" where
  "gauss_ring nphi stride_lon stride_lat theta weight m =
     (case read_dbl theta m of Inl e \<Rightarrow> Inl e | Inr t \<Rightarrow>
      case read_dbl weight m of Inl e \<Rightarrow> Inl e | Inr w \<Rightarrow>
        Inr \<lparr>r_theta = c_acos (- t), r_nph = nphi, r_phi0 = Fin 0,
             r_ofs = c_ptrdiff (m * stride_lat),
             r_stride = stride_lon, r_weight = w * (Fin 2 * pi_d / of_i nphi)\<rparr>)"

definition sharp_make_gauss_geom_info :: "int \<Rightarrow> int \<Rightarrow> int \<Rightarrow> int \<Rightarrow> error + geom_arrays" where
  "sharp_make_gauss_geom_info nrings nphi stride_lon stride_lat =
     (case gauss_legendre_tbl nrings (RALLOC nrings) (RALLOC nrings) of
        Inl e \<Rightarrow> Inl e
      | Inr (theta, weight) \<Rightarrow>
         (case for_rings (gauss_ring nphi stride_lon stride_lat theta weight) [0..<nat nrings] of
            Inl e \<Rightarrow> Inl e
          | Inr rs \<Rightarrow> Inr (sharp_make_geom_info nrings rs)))"

text \<open>\<open>makeweights\<close> writes the cells \<open>0 .. 2*bw-1\<close>; the list holds them in order.\<close>

definition makeweights :: "int \<Rightarrow> dbl list" where
  "makeweights bw =
     (let fudge = pi_d / of_i (c_int (4 * bw)) in
      map (\<lambda>j.
        (let tmpsum = foldl (\<lambda>tmpsum k.
                         tmpsum + Fin 1 / of_i (c_int (2 * k + 1))
                                   * c_sin (of_i (c_int ((2 * j + 1) * (2 * k + 1))) * fudge))
                       (Fin 0) (map int [0..<nat bw]);
             tmpsum = tmpsum * c_sin (of_i (c_int (2 * j + 1)) * fudge);
             tmpsum = tmpsum * (Fin 2 / of_i bw)
         in tmpsum)) (map int [0..<nat (c_int (2 * bw))]))"

definition ecp_ring :: "int \<Rightarrow> int \<Rightarrow> dbl \<Rightarrow> int \<Rightarrow> int \<Rightarrow> dbl list \<Rightarrow> int \<Rightarrow> error + ring" where
  "ecp_ring nrings nphi phi0 stride_lon stride_lat weight m =
     (case read_dbl weight m of Inl e \<Rightarrow> Inl e | Inr w \<Rightarrow>
        Inr \<lparr>r_theta = (of_i m + Fin (1 / 2)) * pi_d / of_i nrings, r_nph = nphi,
             r_phi0 = phi0, r_ofs = c_ptrdiff (m * stride_lat), r_stride = stride_lon,
             r_weight = w * (Fin 2 * pi_d / of_i nphi)\<rparr>)"

definition sharp_make_ecp_geom_info :: "int \<Rightarrow> int \<Rightarrow> dbl \<Rightarrow> int \<Rightarrow> int \<Rightarrow> error + geom_arrays" where
  "sharp_make_ecp_geom_info nrings nphi phi0 stride_lon stride_lat =
     (case UTIL_ASSERT ((nrings AND 1) = 0) ConfigError of
        Inl e \<Rightarrow> Inl e
      | Inr _ \<Rightarrow>
         (let weight = makeweights (c_div nrings 2) in
          case for_rings (ecp_ring nrings nphi phi0 stride_lon stride_lat weight) [0..<nat nrings] of
            Inl e \<Rightarrow> Inl e
          | Inr rs \<Rightarrow> Inr (sharp_make_geom_info nrings rs)))"

definition eps :: "int \<Rightarrow> int \<Rightarrow> dbl" where
  "eps j J = (if j = 0 \<or> j = J then Fin (1 / 2) else if j > 0 \<and> j < J then Fin 1 else Fin 0)"

definition hw_ring :: "int \<Rightarrow> int \<Rightarrow> dbl \<Rightarrow> int \<Rightarrow> int \<Rightarrow> int \<Rightarrow> int \<Rightarrow> ring" where
  "hw_ring nrings ppring phi0 stride_lon stride_lat lmax m =
     (let theta = pi_d * of_i m / (of_i nrings - Fin 1);
          theta = (if theta < Fin (1 / 10 ^ 15) then Fin (1 / 10 ^ 15) else theta);
          theta = (if pi_d - Fin (1 / 10 ^ 15) < theta then pi_d - Fin (1 / 10 ^ 15) else theta);
          nph = ppring;
          wgt = Fin 0;
          prefac = Fin 4 * pi_d * eps m (c_int (2 * lmax)) / of_i lmax;
          wgt = foldl (\<lambda>wgt l.
                   wgt + eps l lmax / of_i (c_int (1 - 4 * l * l))
                         * c_cos ((pi_d * of_i m * of_i l) / of_i lmax))
                wgt (map int [0..<nat (lmax + 1)])
      in \<lparr>r_theta = theta, r_nph = nph, r_phi0 = phi0, r_ofs = c_ptrdiff (m * stride_lat),
          r_stride = stride_lon, r_weight = prefac * wgt / of_i nph\<rparr>)"

definition sharp_make_hw_geom_info :: "int \<Rightarrow> int \<Rightarrow> dbl \<Rightarrow> int \<Rightarrow> int \<Rightarrow> error + geom_arrays" where
  "sharp_make_hw_geom_info nrings ppring phi0 stride_lon stride_lat =
     (case UTIL_ASSERT ((nrings AND 1) = 1) ConfigError of
        Inl e \<Rightarrow> Inl e
      | Inr _ \<Rightarrow>
         (let lmax = c_div (c_int (nrings - 1)) 2 in
          case for_rings (\<lambda>m. Inr (hw_ring nrings ppring phi0 stride_lon stride_lat lmax m))
                 [0..<nat nrings] of
            Inl e \<Rightarrow> Inl e
          | Inr rs \<Rightarrow> Inr (sharp_make_geom_info nrings rs)))"

section \<open>Machine integers and doubles\<close>

lemmas dbl_ops = plus_dbl_def minus_dbl_def times_dbl_def divide_dbl_def uminus_dbl_def

lemma c_int_id: "- 2147483648 \<le> v \<Longrightarrow> v \<le> 2147483647 \<Longrightarrow> c_int v = v"
  by (simp add: c_int_def)

lemma c_ptrdiff_id: "- 9223372036854775808 \<le> v \<Longrightarrow> v \<le> 9223372036854775807 \<Longrightarrow> c_ptrdiff v = v"
  by (simp add: c_ptrdiff_def)

lemma c_int_range: "- 2147483648 \<le> c_int v" "c_int v \<le> 2147483647"
  by (simp_all add: c_int_def)

lemma c_int_le: "0 \<le> v \<Longrightarrow> c_int v \<le> v"
  using zmod_le_nonneg_dividend[of "v + 2147483648" 4294967296] by (simp add: c_int_def)

lemma c_int_diff_left: "c_int (c_int a - b) = c_int (a - b)"
proof -
  have "(c_int a - b + 2147483648) mod 4294967296
      = ((a + 2147483648) mod 4294967296 - b) mod 4294967296"
    by (simp add: c_int_def)
  also have "\<dots> = (a + 2147483648 - b) mod 4294967296"
    by (rule mod_diff_left_eq)
  finally show ?thesis by (simp add: c_int_def algebra_simps)
qed

lemma c_int_mono_diff:
  assumes "a \<le> b"
  shows "c_int b - c_int a \<le> b - a"
proof -
  have "(a + 2147483648) div 4294967296 \<le> (b + 2147483648) div 4294967296"
    using assms by (intro zdiv_mono1) auto
  moreover have "c_int a = a - 4294967296 * ((a + 2147483648) div 4294967296)"
    "c_int b = b - 4294967296 * ((b + 2147483648) div 4294967296)"
    unfolding c_int_def by (simp_all add: minus_mult_div_eq_mod [symmetric])
  ultimately show ?thesis by linarith
qed

section \<open>Properties of the HEALPix builder\<close>

text \<open>The fold onto the northern mirror as the loop computes it, for every \<open>nside > 0\<close>.\<close>

lemma northring_wrapped:
  assumes "0 < nside" "0 \<le> m" "m < c_int (4 * nside - 1)"
  shows "c_int (m + 1) = m + 1"
    "1 \<le> (if m + 1 > c_int (2 * nside) then c_int (4 * nside - (m + 1)) else m + 1)"
    "(if m + 1 > c_int (2 * nside) then c_int (4 * nside - (m + 1)) else m + 1) \<le> 2 * nside"
proof -
  have N: "c_int (4 * nside - 1) \<le> 2147483647" by (rule c_int_range)
  show "c_int (m + 1) = m + 1"
    using assms N by (intro c_int_id) auto
  have "c_int (4 * nside - (m + 1)) = c_int (c_int (4 * nside - 1) - m)"
    by (simp add: c_int_diff_left algebra_simps)
  also have "\<dots> = c_int (4 * nside - 1) - m"
    using assms N by (intro c_int_id) auto
  finally have s: "c_int (4 * nside - (m + 1)) = c_int (4 * nside - 1) - m" .
  have "c_int (4 * nside - 1) - c_int (2 * nside) \<le> (4 * nside - 1) - 2 * nside"
    using assms(1) by (intro c_int_mono_diff) auto
  moreover have "c_int (2 * nside) \<le> 2 * nside"
    using assms(1) by (intro c_int_le) auto
  ultimately show
    "1 \<le> (if m + 1 > c_int (2 * nside) then c_int (4 * nside - (m + 1)) else m + 1)"
    "(if m + 1 > c_int (2 * nside) then c_int (4 * nside - (m + 1)) else m + 1) \<le> 2 * nside"
    using assms s by auto
qed

lemma healpix_ring_ok:
  assumes "0 < nside" "0 \<le> m" "m < c_int (4 * nside - 1)" "2 * nside \<le> int (length weight)"
  shows "\<exists>r. healpix_ring nside stride weight m = Inr r"
proof -
  define nr where "nr = (if m + 1 > c_int (2 * nside) then c_int (4 * nside - (m + 1)) else m + 1)"
  have "0 \<le> nr - 1" "nr - 1 < int (length weight)"
    using northring_wrapped(2,3)[OF assms(1-3)] assms(4) unfolding nr_def by linarith+
  then obtain w where "read_dbl weight (nr - 1) = Inr w"
    by (simp add: read_dbl_def)
  then show ?thesis
    unfolding healpix_ring_def Let_def northring_wrapped(1)[OF assms(1-3)] nr_def[symmetric]
    by (simp split: prod.splits)
qed


lemma for_rings_Inr:
  "for_rings body ms = Inr rs \<Longrightarrow> list_all2 (\<lambda>m r. body (int m) = Inr r) ms rs"
proof (induction ms arbitrary: rs)
  case Nil
  then show ?case by auto
next
  case (Cons m ms)
  then show ?case
    by (auto split: sum.splits)
qed

lemma for_rings_total:
  "(\<And>m. m \<in> set ms \<Longrightarrow> \<exists>r. body (int m) = Inr r) \<Longrightarrow> \<exists>rs. for_rings body ms = Inr rs"
proof (induction ms)
  case Nil
  then show ?case by simp
next
  case (Cons m ms)
  then obtain r rs where "body (int m) = Inr r" "for_rings body ms = Inr rs"
    by (meson list.set_intros)
  then show ?case by simp
qed

lemma healpix_rings:
  assumes "0 < nside" "2 * nside \<le> int (length weight)"
  shows "\<exists>rs. sharp_make_weighted_healpix_geom_info nside stride weight
             = Inr (sharp_make_geom_info (c_int (4 * nside - 1)) rs)
           \<and> length rs = nat (c_int (4 * nside - 1))
           \<and> (\<forall>m < nat (c_int (4 * nside - 1)).
                 healpix_ring nside stride weight (int m) = Inr (rs ! m))"
proof -
  define N where "N = c_int (4 * nside - 1)"
  have "\<exists>rs. for_rings (healpix_ring nside stride weight) [0..<nat N] = Inr rs"
    by (rule for_rings_total) (use assms in \<open>auto simp: N_def intro!: healpix_ring_ok\<close>)
  then obtain rs where rs: "for_rings (healpix_ring nside stride weight) [0..<nat N] = Inr rs"
    by blast
  then have l2: "list_all2 (\<lambda>m r. healpix_ring nside stride weight (int m) = Inr r) [0..<nat N] rs"
    by (rule for_rings_Inr)
  then have len: "length rs = nat N"
    by (auto dest: list_all2_lengthD)
  have "\<forall>m < nat N. healpix_ring nside stride weight (int m) = Inr (rs ! m)"
    using l2 len by (auto simp: list_all2_conv_all_nth)
  with rs len show ?thesis
    by (auto simp: sharp_make_weighted_healpix_geom_info_def Let_def N_def)
qed

lemma northring_range:
  assumes "0 < nside" "0 \<le> m" "m < 4 * nside - 1"
  shows "1 \<le> northring_of nside m" "northring_of nside m \<le> 2 * nside"
  using assms by (auto simp: northring_of_def Let_def)

text \<open>Below the overflow of \<open>4 * nside\<close> no \<open>int\<close> of the loop wraps.\<close>

lemma healpix_ring_unwrapped:
  assumes "0 < nside" "4 * nside \<le> INT_MAX" "0 \<le> m" "m < 4 * nside - 1"
  shows "c_int (4 * nside - 1) = 4 * nside - 1" "c_int (m + 1) = m + 1"
    "c_int (2 * nside) = 2 * nside" "c_int (4 * nside) = 4 * nside"
    "c_int (nside - 1) = nside - 1"
    "(if m + 1 > 2 * nside then c_int (4 * nside - (m + 1)) else m + 1) = northring_of nside m"
    "northring_of nside m < nside \<Longrightarrow> c_int (4 * northring_of nside m) = 4 * northring_of nside m"
  using assms by (auto simp: INT_MAX_def northring_of_def Let_def intro!: c_int_id)

lemma healpix_ring_nph:
  assumes "0 < nside" "4 * nside \<le> INT_MAX" "0 \<le> m" "m < 4 * nside - 1"
    and "healpix_ring nside stride weight m = Inr r"
  shows "r_nph r = ring_nph nside m" "r_stride r = stride"
    "r_phi0 r = Fin 0 \<or> r_phi0 r = pi_d / of_i (r_nph r)"
proof -
  note e = healpix_ring_unwrapped[OF assms(1-4)]
  note h = assms(5)[unfolded healpix_ring_def Let_def e(2,3) e(6)]
  show "r_nph r = ring_nph nside m"
    using h e(7) by (cases "northring_of nside m < nside")
      (auto simp: ring_nph_def Let_def e(4) split: sum.splits prod.splits if_splits)
  show "r_stride r = stride"
    using h by (auto split: sum.splits prod.splits if_splits)
  show "r_phi0 r = Fin 0 \<or> r_phi0 r = pi_d / of_i (r_nph r)"
    using h by (cases "northring_of nside m < nside")
      (auto split: sum.splits prod.splits if_splits)
qed


lemma healpix_ring_ofs:
  assumes "0 < nside" "4 * nside \<le> INT_MAX" "0 \<le> m" "m < 4 * nside - 1"
    and "healpix_ring nside 1 weight m = Inr r"
  shows "r_ofs r = ring_ofs nside 1 m"
proof -
  define nr where "nr = northring_of nside m"
  note e = healpix_ring_unwrapped[OF assms(1-4)]
  note h = assms(5)[unfolded healpix_ring_def Let_def e(2,3) e(6) e(5) e(4), folded nr_def]
  have nr: "1 \<le> nr" "nr \<le> 2 * nside"
    using northring_range[OF assms(1,3,4)] by (simp_all add: nr_def)
  define S where "S = nside * nside"
  define R where "R = nr * nr"
  define T where "T = nr * nside"
  have K: "nside \<le> 536870911" using assms(2) by (simp add: INT_MAX_def)
  have S: "0 \<le> S" "S \<le> 288230375077969921"
    using mult_mono[of nside 536870911 nside 536870911] K assms(1) by (simp_all add: S_def)
  have R: "0 \<le> R" "R \<le> 4 * S"
    using mult_mono[of nr "2 * nside" nr "2 * nside"] nr assms(1) by (simp_all add: R_def S_def)
  have T: "0 \<le> T" "T \<le> 2 * S"
    using mult_right_mono[of nr "2 * nside" nside] nr assms(1) by (simp_all add: T_def S_def)
  have xA: "nside * nside * 12 = 12 * S" by (simp add: S_def)
  have xB: "2 * nside * (nside - 1) = 2 * S - 2 * nside" by (simp add: S_def algebra_simps)
  have xC: "2 * nr * (nr - 1) = 2 * R - 2 * nr" by (simp add: R_def algebra_simps)
  have xD: "(nr - nside) * (4 * nside) = 4 * T - 4 * S" by (simp add: T_def S_def algebra_simps)
  have pA: "c_ptrdiff (nside * nside * 12) = nside * nside * 12"
    unfolding xA by (intro c_ptrdiff_id; use S in linarith)
  have pB: "c_ptrdiff (2 * nside * (nside - 1)) = 2 * nside * (nside - 1)"
    unfolding xB by (intro c_ptrdiff_id; use S K assms(1) in linarith)
  have pC: "c_ptrdiff (2 * nr * (nr - 1)) = 2 * nr * (nr - 1)"
    unfolding xC by (intro c_ptrdiff_id; use S R K nr assms(1) in linarith)
  have pD: "c_ptrdiff (2 * nside * (nside - 1) + (nr - nside) * (4 * nside))
      = 2 * nside * (nside - 1) + (nr - nside) * (4 * nside)"
    unfolding xB xD by (intro c_ptrdiff_id; use S T K nr assms(1) in linarith)
  have pE: "c_ptrdiff (nside * nside * 12 - 4 * nr - 2 * nr * (nr - 1))
      = nside * nside * 12 - 4 * nr - 2 * nr * (nr - 1)"
    unfolding xA xC by (intro c_ptrdiff_id; use S R K nr assms(1) in linarith)
  have pF: "c_ptrdiff (nside * nside * 12 - 4 * nside
        - (2 * nside * (nside - 1) + (nr - nside) * (4 * nside)))
      = nside * nside * 12 - 4 * nside - (2 * nside * (nside - 1) + (nr - nside) * (4 * nside))"
    unfolding xA xB xD by (intro c_ptrdiff_id; use S T K nr assms(1) in linarith)
  have src: "r_ofs r =
      (if nr < nside then
         (if nr \<noteq> m + 1
          then c_ptrdiff (c_ptrdiff (nside * nside * 12) - c_int (4 * nr) - c_ptrdiff (2 * nr * (nr - 1)))
          else c_ptrdiff (2 * nr * (nr - 1)))
       else
         (if nr \<noteq> m + 1
          then c_ptrdiff (c_ptrdiff (nside * nside * 12) - 4 * nside
                 - c_ptrdiff (c_ptrdiff (2 * nside * (nside - 1)) + (nr - nside) * (4 * nside)))
          else c_ptrdiff (c_ptrdiff (2 * nside * (nside - 1)) + (nr - nside) * (4 * nside))))"
    using h by (auto split: sum.splits prod.splits if_splits)
  have tgt: "ring_ofs nside 1 m =
      (if nr < nside then
         (if nr \<noteq> m + 1
          then nside * nside * 12 - 4 * nr - 2 * nr * (nr - 1)
          else 2 * nr * (nr - 1))
       else
         (if nr \<noteq> m + 1
          then nside * nside * 12 - 4 * nside
                 - (2 * nside * (nside - 1) + (nr - nside) * (4 * nside))
          else 2 * nside * (nside - 1) + (nr - nside) * (4 * nside)))"
    by (simp add: ring_ofs_def ring_nph_def Let_def nr_def)
  have c4: "nr < nside \<Longrightarrow> c_int (4 * nr) = 4 * nr"
    using e(7) by (simp add: nr_def)
  consider (a) "nr < nside" "nr \<noteq> m + 1" | (b) "nr < nside" "m + 1 = nr"
    | (c) "\<not> nr < nside" "nr \<noteq> m + 1" | (d) "\<not> nr < nside" "m + 1 = nr"
    by auto
  then show ?thesis
  proof cases
    case a
    then show ?thesis by (simp add: src tgt pA pC pE c4)
  next
    case b
    then show ?thesis by (simp add: src tgt pC)
  next
    case c
    then show ?thesis by (simp add: src tgt pA pB pD pF)
  next
    case d
    then show ?thesis by (simp add: src tgt pB pD)
  qed
qed

lemma ofs_step:
  assumes "0 < nside" "0 \<le> m" "m + 1 < 4 * nside - 1"
  shows "ring_ofs nside 1 (m + 1) = ring_ofs nside 1 m + ring_nph nside m"
proof -
  consider (cap) "m + 2 < nside" | (cap_belt) "m + 2 = nside"
    | (belt) "nside < m + 2" "m + 2 \<le> 3 * nside"
    | (belt_cap) "m + 2 = 3 * nside + 1" | (scap) "3 * nside + 1 < m + 2"
    by linarith
  then show ?thesis
  proof cases
    case cap
    then show ?thesis using assms
      by (simp add: ring_ofs_def ring_nph_def northring_of_def Let_def algebra_simps)
  next
    case cap_belt
    then have n: "nside = m + 2" by simp
    show ?thesis unfolding n using assms(2)
      by (simp add: ring_ofs_def ring_nph_def northring_of_def Let_def algebra_simps)
  next
    case belt
    then show ?thesis using assms
      by (auto simp: ring_ofs_def ring_nph_def northring_of_def Let_def algebra_simps)
  next
    case belt_cap
    then have m: "m = 3 * nside - 1" by simp
    show ?thesis unfolding m using assms(1)
      by (simp add: ring_ofs_def ring_nph_def northring_of_def Let_def algebra_simps)
  next
    case scap
    then show ?thesis using assms
      by (simp add: ring_ofs_def ring_nph_def northring_of_def Let_def algebra_simps)
  qed
qed

lemma ofs_0: "0 < nside \<Longrightarrow> ring_ofs nside 1 0 = 0"
  by (auto simp: ring_ofs_def ring_nph_def northring_of_def Let_def algebra_simps)

lemma ofs_last: "0 < nside \<Longrightarrow> ring_ofs nside 1 (4 * nside - 2) + ring_nph nside (4 * nside - 2) = 12 * nside * nside"
  by (auto simp: ring_ofs_def ring_nph_def northring_of_def Let_def algebra_simps)



lemma healpix_arrays:
  assumes "0 < nside" "4 * nside \<le> INT_MAX" "2 * nside \<le> int (length weight)"
  shows "\<exists>g. sharp_make_weighted_healpix_geom_info nside stride weight = Inr g
           \<and> g_nrings g = 4 * nside - 1
           \<and> g_nph g = map (\<lambda>m. ring_nph nside (int m)) [0..<nat (4 * nside - 1)]
           \<and> (stride = 1 \<longrightarrow>
                g_ofs g = map (\<lambda>m. ring_ofs nside 1 (int m)) [0..<nat (4 * nside - 1)])
           \<and> g_stride g = replicate (nat (4 * nside - 1)) stride
           \<and> length (g_ofs g) = nat (4 * nside - 1)
           \<and> length (g_phi0 g) = nat (4 * nside - 1)
           \<and> length (g_theta g) = nat (4 * nside - 1)
           \<and> length (g_weight g) = nat (4 * nside - 1)"
proof -
  have N: "c_int (4 * nside - 1) = 4 * nside - 1"
    using assms(1,2) by (intro c_int_id) (auto simp: INT_MAX_def)
  obtain rs where rs: "sharp_make_weighted_healpix_geom_info nside stride weight
             = Inr (sharp_make_geom_info (4 * nside - 1) rs)"
    "length rs = nat (4 * nside - 1)"
    "\<forall>m < nat (4 * nside - 1). healpix_ring nside stride weight (int m) = Inr (rs ! m)"
    using healpix_rings[OF assms(1,3), of stride] unfolding N by blast
  have f: "r_nph (rs ! m) = ring_nph nside (int m)" "r_stride (rs ! m) = stride"
    "stride = 1 \<Longrightarrow> r_ofs (rs ! m) = ring_ofs nside 1 (int m)"
    if "m < nat (4 * nside - 1)" for m
  proof -
    have m: "0 \<le> int m" "int m < 4 * nside - 1" using that by auto
    have h: "healpix_ring nside stride weight (int m) = Inr (rs ! m)"
      using rs(3) that by blast
    show "r_nph (rs ! m) = ring_nph nside (int m)" "r_stride (rs ! m) = stride"
      using healpix_ring_nph(1,2)[OF assms(1,2) m h] by simp_all
    show "r_ofs (rs ! m) = ring_ofs nside 1 (int m)" if "stride = 1"
      using healpix_ring_ofs[OF assms(1,2) m] h that by simp
  qed
  have "map r_nph rs = map (\<lambda>m. ring_nph nside (int m)) [0..<nat (4 * nside - 1)]"
    using rs(2) f(1) by (intro nth_equalityI) auto
  moreover have "map r_ofs rs = map (\<lambda>m. ring_ofs nside 1 (int m)) [0..<nat (4 * nside - 1)]"
    if "stride = 1"
    using rs(2) f(3) that by (intro nth_equalityI) auto
  moreover have "map r_stride rs = replicate (nat (4 * nside - 1)) stride"
    using rs(2) f(2) by (intro nth_equalityI) auto
  ultimately show ?thesis using rs(1,2)
    by (simp add: sharp_make_geom_info_def)
qed

lemma ofs_cum:
  assumes "0 < nside" "int k < 4 * nside - 1"
  shows "ring_ofs nside 1 (int k) = (\<Sum>m<k. ring_nph nside (int m))"
  using assms(2)
proof (induction k)
  case 0
  then show ?case using assms(1) by (simp add: ofs_0)
next
  case (Suc k)
  then have "ring_ofs nside 1 (int k + 1) = ring_ofs nside 1 (int k) + ring_nph nside (int k)"
    using assms(1) by (intro ofs_step) auto
  with Suc show ?case by (simp add: add.commute)
qed

lemma nph_total:
  assumes "0 < nside"
  shows "(\<Sum>m<nat (4 * nside - 1). ring_nph nside (int m)) = 12 * nside * nside"
proof -
  define k where "k = nat (4 * nside - 2)"
  have k: "int k = 4 * nside - 2" "nat (4 * nside - 1) = Suc k"
    using assms by (auto simp: k_def)
  have "ring_ofs nside 1 (int k) = (\<Sum>m<k. ring_nph nside (int m))"
    using assms k by (intro ofs_cum) auto
  then show ?thesis
    using ofs_last[OF assms] k by simp
qed

lemma ring_nph_pos:
  assumes "0 < nside" "0 \<le> m" "m < 4 * nside - 1"
  shows "0 < ring_nph nside m"
  using northring_range[OF assms] assms(1) by (auto simp: ring_nph_def Let_def)

lemma tiling_union:
  fixes s :: "nat \<Rightarrow> int"
  assumes "\<And>m. m < n \<Longrightarrow> s m \<le> s (Suc m)"
  shows "(\<Union>m<n. {s m ..< s (Suc m)}) = {s 0 ..< s n}"
  using assms
proof (induction n)
  case 0
  then show ?case by simp
next
  case (Suc n)
  have mono: "s 0 \<le> s n"
    using Suc.prems by (induction n) (auto intro: order_trans simp: less_Suc_eq)
  have "(\<Union>m<Suc n. {s m ..< s (Suc m)}) = {s 0 ..< s n} \<union> {s n ..< s (Suc n)}"
    using Suc by (simp add: lessThan_Suc Un_commute)
  also have "\<dots> = {s 0 ..< s (Suc n)}"
    using mono Suc.prems[of n] by auto
  finally show ?case .
qed

lemma tiling_disjoint:
  fixes s :: "nat \<Rightarrow> int"
  assumes "\<And>m. m < n \<Longrightarrow> s m \<le> s (Suc m)" "m < m'" "m' < n"
  shows "{s m ..< s (Suc m)} \<inter> {s m' ..< s (Suc m')} = {}"
proof -
  have "s (Suc m) \<le> s m'"
    using assms(2,3)
  proof (induction m')
    case 0
    then show ?case by simp
  next
    case (Suc m')
    show ?case
    proof (cases "m = m'")
      case True
      then show ?thesis by simp
    next
      case False
      then have "s (Suc m) \<le> s m'" using Suc by auto
      moreover have "s m' \<le> s (Suc m')" using assms(1)[of m'] Suc.prems by auto
      ultimately show ?thesis by linarith
    qed
  qed
  then show ?thesis by auto
qed



text \<open>
  Claim C5, as amended. For every \<open>nside > 0\<close> with \<open>4 * nside <= INT_MAX\<close> (and a
  weight array of the length \<open>2 * nside\<close> the interface asks for) the HEALPix builder
  hands over \<open>4 * nside - 1\<close> rings, all six arrays have that length, the \<open>nphi\<close> of all
  rings add up to \<open>12 * nside\<^sup>2\<close>, and a ring has \<open>nphi = 4 * northring\<close> in the polar
  caps and \<open>nphi = 4 * nside\<close> in the equatorial belt.
\<close>

theorem healpix_ring_count_and_pixel_sum:
  assumes "0 < nside" "4 * nside \<le> INT_MAX" "int (length weight) = 2 * nside"
  shows "\<exists>g. sharp_make_weighted_healpix_geom_info nside stride weight = Inr g
           \<and> g_nrings g = 4 * nside - 1
           \<and> int (length (g_nph g)) = 4 * nside - 1
           \<and> length (g_ofs g) = length (g_nph g) \<and> length (g_stride g) = length (g_nph g)
           \<and> length (g_phi0 g) = length (g_nph g) \<and> length (g_theta g) = length (g_nph g)
           \<and> length (g_weight g) = length (g_nph g)
           \<and> sum_list (g_nph g) = 12 * nside\<^sup>2
           \<and> (\<forall>m < length (g_nph g).
                 g_nph g ! m = (if northring_of nside (int m) < nside
                                then 4 * northring_of nside (int m) else 4 * nside))"
proof -
  obtain g where g: "sharp_make_weighted_healpix_geom_info nside stride weight = Inr g"
      "g_nrings g = 4 * nside - 1"
      "g_nph g = map (\<lambda>m. ring_nph nside (int m)) [0..<nat (4 * nside - 1)]"
      "g_stride g = replicate (nat (4 * nside - 1)) stride"
      "length (g_ofs g) = nat (4 * nside - 1)"
      "length (g_phi0 g) = nat (4 * nside - 1)"
      "length (g_theta g) = nat (4 * nside - 1)"
      "length (g_weight g) = nat (4 * nside - 1)"
    using healpix_arrays[of nside weight stride] assms by auto
  have "sum_list (g_nph g) = (\<Sum>m<nat (4 * nside - 1). ring_nph nside (int m))"
    by (simp add: g(3) interv_sum_list_conv_sum_set_nat atLeast0LessThan)
  then have "sum_list (g_nph g) = 12 * nside\<^sup>2"
    using nph_total[OF assms(1)] by (simp add: power2_eq_square)
  moreover have "int (length (g_nph g)) = 4 * nside - 1"
    using assms(1) by (simp add: g(3))
  moreover have "\<forall>m < length (g_nph g).
                 g_nph g ! m = (if northring_of nside (int m) < nside
                                then 4 * northring_of nside (int m) else 4 * nside)"
    by (simp add: g(3) ring_nph_def Let_def)
  ultimately show ?thesis using g by simp
qed

theorem healpix_ring_count_and_pixel_sum_witness:
  "(0::int) < 2 \<and> 4 * 2 \<le> INT_MAX \<and> int (length [Fin 1, Fin 1, Fin 1, Fin 1]) = 2 * 2
   \<and> (\<exists>g. sharp_make_weighted_healpix_geom_info 2 1 [Fin 1, Fin 1, Fin 1, Fin 1] = Inr g
           \<and> g_nrings g = 7 \<and> length (g_nph g) = 7 \<and> sum_list (g_nph g) = 48
           \<and> g_nph g ! 0 = 4 \<and> g_nph g ! 1 = 8 \<and> g_nph g ! 6 = 4)"
  using healpix_ring_count_and_pixel_sum[of 2 "[Fin 1, Fin 1, Fin 1, Fin 1]" 1]
  by (auto simp: INT_MAX_def northring_of_def)


text \<open>
  Claim C10, as amended. For every \<open>nside > 0\<close> with \<open>4 * nside <= INT_MAX\<close> and stride
  1, the pixel intervals \<open>[offset[m], offset[m] + nphi[m])\<close> of the HEALPix rings are
  pairwise disjoint and their union is \<open>[0, 12 * nside\<^sup>2)\<close>; the offsets are those of
  \<open>ring_ofs\<close>: the cap offset \<open>2 * northring * (northring - 1)\<close>, the belt offset
  \<open>ncap + (northring - nside) * 4 * nside\<close>, and \<open>(npix - nphi) - offset\<close> for a southern ring.
\<close>

theorem healpix_pixel_intervals_tile:
  assumes "0 < nside" "4 * nside \<le> INT_MAX" "int (length weight) = 2 * nside"
  shows "\<exists>g. sharp_make_weighted_healpix_geom_info nside 1 weight = Inr g
           \<and> int (length (g_ofs g)) = 4 * nside - 1
           \<and> length (g_nph g) = length (g_ofs g)
           \<and> (\<forall>m < length (g_ofs g). g_ofs g ! m = ring_ofs nside 1 (int m))
           \<and> (\<forall>m < length (g_ofs g). \<forall>m' < length (g_ofs g).
                 m \<noteq> m' \<longrightarrow> ring_interval g m \<inter> ring_interval g m' = {})
           \<and> (\<Union>m < length (g_ofs g). ring_interval g m) = {0 ..< 12 * nside\<^sup>2}"
proof -
  define n where "n = nat (4 * nside - 1)"
  define s where "s k = (\<Sum>m<k. ring_nph nside (int m))" for k
  obtain g where g: "sharp_make_weighted_healpix_geom_info nside 1 weight = Inr g"
      "g_nph g = map (\<lambda>m. ring_nph nside (int m)) [0..<n]"
      "g_ofs g = map (\<lambda>m. ring_ofs nside 1 (int m)) [0..<n]"
    using healpix_arrays[of nside weight 1] assms unfolding n_def by auto
  have step: "s m \<le> s (Suc m)" if "m < n" for m
    using ring_nph_pos[of nside "int m"] assms(1) that
    by (simp add: s_def n_def zless_nat_eq_int_zless)
  have iv: "ring_interval g m = {s m ..< s (Suc m)}" if "m < n" for m
  proof -
    have "ring_ofs nside 1 (int m) = s m"
      unfolding s_def using that assms(1) by (intro ofs_cum) (auto simp: n_def)
    then show ?thesis using that by (simp add: ring_interval_def g s_def)
  qed
  have disj: "ring_interval g m \<inter> ring_interval g m' = {}" if "m < n" "m' < n" "m \<noteq> m'" for m m'
  proof (cases "m < m'")
    case True
    then show ?thesis using tiling_disjoint[of n s m m'] step that by (simp add: iv)
  next
    case False
    then have "m' < m" using that by simp
    then show ?thesis using tiling_disjoint[of n s m' m] step that by (simp add: iv Int_commute)
  qed
  have "(\<Union>m<n. ring_interval g m) = (\<Union>m<n. {s m ..< s (Suc m)})"
    using iv by simp
  also have "\<dots> = {s 0 ..< s n}"
    using step by (rule tiling_union)
  also have "\<dots> = {0 ..< 12 * nside\<^sup>2}"
    using nph_total[OF assms(1)] by (simp add: s_def n_def power2_eq_square mult.assoc)
  finally have "(\<Union>m<n. ring_interval g m) = {0 ..< 12 * nside\<^sup>2}" .
  moreover have "length (g_ofs g) = n" "length (g_nph g) = n" by (simp_all add: g)
  moreover have "int n = 4 * nside - 1" using assms(1) by (simp add: n_def)
  moreover have "\<forall>m < n. g_ofs g ! m = ring_ofs nside 1 (int m)" by (simp add: g)
  ultimately show ?thesis using g(1) disj by auto
qed

theorem healpix_pixel_intervals_tile_witness:
  "(0::int) < 2 \<and> 4 * 2 \<le> INT_MAX \<and> int (length [Fin 1, Fin 1, Fin 1, Fin 1]) = 2 * 2
   \<and> (\<exists>g. sharp_make_weighted_healpix_geom_info 2 1 [Fin 1, Fin 1, Fin 1, Fin 1] = Inr g
           \<and> length (g_ofs g) = 7
           \<and> g_ofs g ! 0 = 0 \<and> g_ofs g ! 1 = 4 \<and> g_ofs g ! 6 = 44
           \<and> ring_interval g 0 \<inter> ring_interval g 1 = {}
           \<and> (\<Union>m < length (g_ofs g). ring_interval g m) = {0 ..< 48})"
  using healpix_pixel_intervals_tile[of 2 "[Fin 1, Fin 1, Fin 1, Fin 1]"]
  by (auto simp: INT_MAX_def ring_ofs_def ring_nph_def northring_of_def)




text \<open>
  At \<open>nside = 2\<^sup>2\<^sup>9 = 536870912\<close> the \<^verbatim>\<open>int\<close> product \<open>4 * nside\<close> is \<open>2\<^sup>3\<^sup>1\<close> and wraps to
  \<open>- 2\<^sup>3\<^sup>1\<close>; \<open>nrings = 4 * nside - 1\<close> is \<open>INT_MAX\<close> and \<open>2 * nside\<close> is \<open>2\<^sup>3\<^sup>0\<close>.
\<close>

lemma healpix_rings_2_29:
  "\<exists>rs. sharp_make_healpix_geom_info 536870912 1 = Inr (sharp_make_geom_info 2147483647 rs)
        \<and> length rs = 2147483647
        \<and> (\<forall>m < 2147483647.
              healpix_ring 536870912 1 (replicate 1073741824 (Fin 1)) (int m) = Inr (rs ! m))"
  using healpix_rings[of 536870912 "replicate 1073741824 (Fin 1)" 1]
  by (simp add: sharp_make_healpix_geom_info_def c_int_def)

lemma healpix_ring_2_29:
  assumes "0 \<le> m" "m < 2147483647"
    and "healpix_ring 536870912 1 weight m = Inr r"
  shows "r_nph r = (if m + 1 < 536870912 then 4 * (m + 1)
                    else if 1610612736 < m + 1 then 4 * (2147483648 - (m + 1))
                    else - 2147483648)"
  using assms
  by (auto simp: healpix_ring_def Let_def c_int_def split: sum.splits prod.splits if_splits)

lemma north_cap_end_2_29:
  assumes "0 \<le> m" "m < 536870911"
  shows "c_ptrdiff ((2 + 2 * m) * m) + 4 * m \<le> 576460751229681660"
proof -
  define M where "M = m * m"
  have M: "0 \<le> M" "M \<le> 288230374004228100"
    using mult_mono[of m 536870910 m 536870910] assms by (simp_all add: M_def)
  have x: "(2 + 2 * m) * m = 2 * m + 2 * M"
    by (simp add: M_def algebra_simps)
  have p1: "c_ptrdiff (2 * m + 2 * M) = 2 * m + 2 * M"
    by (intro c_ptrdiff_id; use M assms in linarith)
  show ?thesis
    unfolding x p1 using M assms by linarith
qed


lemma south_cap_start_2_29:
  assumes "1610612735 < m" "m < 2147483647"
  shows "576460751229681664
    < c_ptrdiff (3458764505230606340 + 4 * m
                 - c_ptrdiff ((4294967294 - 2 * m) * (2147483646 - m)))"
proof -
  define k where "k = 2147483646 - m"
  define M where "M = k * k"
  have k: "0 \<le> k" "k \<le> 536870910" using assms by (simp_all add: k_def)
  have M: "0 \<le> M" "M \<le> 288230374004228100"
    using mult_mono[of k 536870910 k 536870910] k by (simp_all add: M_def)
  have m: "4294967294 - 2 * m = 2 + 2 * k" "2147483646 - m = k" "4 * m = 8589934584 - 4 * k"
    by (simp_all add: k_def)
  have x: "(2 + 2 * k) * k = 2 * k + 2 * M"
    by (simp add: M_def algebra_simps)
  have p1: "c_ptrdiff (2 * k + 2 * M) = 2 * k + 2 * M"
    by (intro c_ptrdiff_id; use M k in linarith)
  have p2: "c_ptrdiff (3458764505230606340 + (8589934584 - 4 * k) - (2 * k + 2 * M))
      = 3458764505230606340 + (8589934584 - 4 * k) - (2 * k + 2 * M)"
    by (intro c_ptrdiff_id; use M k in linarith)
  show ?thesis
    unfolding m x p1 p2 using M k by linarith
qed

lemma healpix_gap_2_29:
  assumes "0 \<le> m" "m < 2147483647"
    and "healpix_ring 536870912 1 weight m = Inr r"
  shows "576460751229681664 \<notin> {r_ofs r ..< r_ofs r + r_nph r}"
proof -
  have c1: "c_ptrdiff 3458764513820540928 = 3458764513820540928"
    by (simp add: c_ptrdiff_def)
  show ?thesis
    using assms north_cap_end_2_29[of m] south_cap_start_2_29[of m]
    by (auto simp: healpix_ring_def Let_def c_int_def c1 split: sum.splits prod.splits if_splits)
qed


lemma healpix_belt_ring_2_29:
  assumes "healpix_ring 536870912 1 weight 536870911 = Inr r"
  shows "r_nph r = - 2147483648" "r_phi0 r = Fin (- (pi / 2147483648))"
  using assms
  by (auto simp: healpix_ring_def Let_def c_int_def pi_d_def dbl_ops
      split: sum.splits prod.splits if_splits)

text \<open>
  The claim C5 as stated fails at \<open>nside = 536870912\<close>: ring 536870911 has
  \<open>northring = nside\<close>, so it is a ring of the equatorial belt, and its \<open>nphi\<close> is
  \<open>- 2147483648\<close>, not \<open>4 * nside = 2147483648\<close>.
\<close>

theorem healpix_nph_overflow_counterexample:
  "northring_of 536870912 536870911 = 536870912
   \<and> map_sum id g_nrings (sharp_make_healpix_geom_info 536870912 1) = Inr 2147483647
   \<and> map_sum id (nph_at 536870911) (sharp_make_healpix_geom_info 536870912 1)
       = Inr (- 2147483648)"
proof -
  obtain rs where rs:
      "sharp_make_healpix_geom_info 536870912 1 = Inr (sharp_make_geom_info 2147483647 rs)"
      "length rs = 2147483647"
      "\<forall>m < 2147483647.
         healpix_ring 536870912 1 (replicate 1073741824 (Fin 1)) (int m) = Inr (rs ! m)"
    using healpix_rings_2_29 by blast
  have "healpix_ring 536870912 1 (replicate 1073741824 (Fin 1)) (int 536870911)
      = Inr (rs ! 536870911)"
    using rs(3)[rule_format, of 536870911] by simp
  then have "r_nph (rs ! 536870911) = - 2147483648"
    using healpix_belt_ring_2_29(1) by simp
  then show ?thesis
    using rs(2) by (simp add: rs(1) nph_at_def sharp_make_geom_info_def northring_of_def)
qed

text \<open>
  The claim C10 as stated fails at \<open>nside = 536870912\<close>: every belt ring has a negative
  \<open>nphi\<close> and so an empty pixel interval, and pixel \<open>ncap = 576460751229681664\<close>, the
  first pixel of the belt, lies on no ring although it is below \<open>12 * nside\<^sup>2\<close>.
\<close>

theorem healpix_uncovered_pixel_counterexample:
  "(0::int) \<le> 576460751229681664 \<and> (576460751229681664::int) < 12 * 536870912\<^sup>2
   \<and> map_sum id (pixel_covered 576460751229681664) (sharp_make_healpix_geom_info 536870912 1)
       = Inr False"
proof -
  obtain rs where rs:
      "sharp_make_healpix_geom_info 536870912 1 = Inr (sharp_make_geom_info 2147483647 rs)"
      "length rs = 2147483647"
      "\<forall>m < 2147483647.
         healpix_ring 536870912 1 (replicate 1073741824 (Fin 1)) (int m) = Inr (rs ! m)"
    using healpix_rings_2_29 by blast
  have "576460751229681664 \<notin> {r_ofs (rs ! m) ..< r_ofs (rs ! m) + r_nph (rs ! m)}"
    if "m < 2147483647" for m
  proof -
    have "healpix_ring 536870912 1 (replicate 1073741824 (Fin 1)) (int m) = Inr (rs ! m)"
      using rs(3) that by blast
    moreover have "0 \<le> int m" "int m < 2147483647" using that by simp_all
    ultimately show ?thesis by (intro healpix_gap_2_29)
  qed
  then have "\<not> pixel_covered 576460751229681664 (sharp_make_geom_info 2147483647 rs)"
    using rs(2)
    by (simp add: pixel_covered_def list_ex_iff ring_interval_def sharp_make_geom_info_def)
  then show ?thesis
    by (simp add: rs(1))
qed

section \<open>Properties of the Newton loop\<close>

lemma newton_loop_break:
  "newton_loop ev x True j = Inr (newton_step ev x, snd (ev x))"
  by (subst newton_loop.simps) (simp add: newton_step_def Let_def split: prod.splits)

lemma newton_loop_unfold:
  "newton_loop ev x False j =
     (if j + 1 < 100 then newton_loop ev (newton_step ev x) (conv_on_pass ev x 1) (j + 1)
      else Inl ConvergenceError)"
  by (subst newton_loop.simps)
     (simp add: newton_step_def newton_dx_def conv_on_pass_def Let_def split: prod.splits)

lemma conv_on_pass_Suc:
  "1 \<le> k \<Longrightarrow> conv_on_pass ev x (Suc k) = conv_on_pass ev (newton_step ev x) k"
  by (cases k) (simp_all add: conv_on_pass_def funpow_swap1)

lemma newton_loop_first_conv:
  "first_conv ev x k \<Longrightarrow> 0 \<le> j \<Longrightarrow> j + int k \<le> 99 \<Longrightarrow>
   newton_loop ev x False j = Inr ((newton_step ev ^^ Suc k) x, snd (ev ((newton_step ev ^^ k) x)))"
proof (induction k arbitrary: x j)
  case 0
  then show ?case by (simp add: first_conv_def)
next
  case (Suc k)
  show ?case
  proof (cases "k = 0")
    case True
    with Suc.prems have "conv_on_pass ev x 1" "j + 1 < 100"
      by (simp_all add: first_conv_def)
    then show ?thesis using True
      by (simp add: newton_loop_unfold newton_loop_break)
  next
    case False
    then have k: "1 \<le> k" by simp
    from Suc.prems(1) k have nc: "\<not> conv_on_pass ev x 1"
      by (auto simp: first_conv_def)
    have fc: "first_conv ev (newton_step ev x) k"
      unfolding first_conv_def
    proof (intro conjI allI impI)
      show "1 \<le> k" by (rule k)
      show "conv_on_pass ev (newton_step ev x) k"
        using Suc.prems(1) k by (simp add: first_conv_def conv_on_pass_Suc)
      fix p assume p: "1 \<le> p \<and> p < k"
      then have "\<not> conv_on_pass ev x (Suc p)"
        using Suc.prems(1) by (simp add: first_conv_def)
      then show "\<not> conv_on_pass ev (newton_step ev x) p"
        using p by (simp add: conv_on_pass_Suc)
    qed
    have "newton_loop ev (newton_step ev x) False (j + 1)
          = Inr ((newton_step ev ^^ Suc k) (newton_step ev x),
                 snd (ev ((newton_step ev ^^ k) (newton_step ev x))))"
      using Suc.prems by (intro Suc.IH[OF fc]) auto
    moreover have "j + 1 < 100" using Suc.prems by simp
    ultimately show ?thesis using nc
      by (simp add: newton_loop_unfold funpow_swap1)
  qed
qed

lemma newton_loop_no_conv:
  "0 \<le> j \<Longrightarrow> j \<le> 99 \<Longrightarrow> (\<And>k. 1 \<le> k \<Longrightarrow> j + int k \<le> 99 \<Longrightarrow> \<not> conv_on_pass ev x k) \<Longrightarrow>
   newton_loop ev x False j = Inl ConvergenceError"
proof (induction "nat (99 - j)" arbitrary: x j)
  case 0
  then have "j = 99" by simp
  then show ?case by (simp add: newton_loop_unfold)
next
  case (Suc d)
  then have j: "j + 1 < 100" "j + 1 \<le> 99" "d = nat (99 - (j + 1))" by auto
  have nc: "\<not> conv_on_pass ev x 1" using Suc.prems(3)[of 1] j by simp
  have "newton_loop ev (newton_step ev x) False (j + 1) = Inl ConvergenceError"
  proof (rule Suc.hyps(1)[OF j(3)])
    show "0 \<le> j + 1" using Suc.prems by simp
    show "j + 1 \<le> 99" by (rule j(2))
    fix k assume k: "1 \<le> k" "j + 1 + int k \<le> 99"
    then have "\<not> conv_on_pass ev x (Suc k)" by (intro Suc.prems(3)) auto
    then show "\<not> conv_on_pass ev (newton_step ev x) k" using k by (simp add: conv_on_pass_Suc)
  qed
  then show ?case using nc j by (simp add: newton_loop_unfold)
qed

lemma first_conv_exists:
  assumes "1 \<le> k" "k \<le> n" "conv_on_pass ev x k"
  shows "\<exists>k'. k' \<le> n \<and> first_conv ev x k'"
proof -
  define P where "P i = (1 \<le> i \<and> conv_on_pass ev x i)" for i
  have "P k" using assms by (simp add: P_def)
  then have l1: "P (LEAST i. P i)" and l2: "(LEAST i. P i) \<le> k"
    by (rule LeastI, rule Least_le)
  have l3: "\<not> P p" if "p < (LEAST i. P i)" for p
    using that by (rule not_less_Least)
  define k' where "k' = (LEAST i. P i)"
  have "1 \<le> k'" "conv_on_pass ev x k'" "k' \<le> n"
    using l1 l2 assms(2) by (simp_all add: k'_def P_def)
  moreover have "\<not> conv_on_pass ev x p" if "1 \<le> p \<and> p < k'" for p
    using l3[of p] that by (simp add: k'_def P_def)
  ultimately show ?thesis
    unfolding first_conv_def by blast
qed

lemma first_conv_unique:
  "first_conv ev x k \<Longrightarrow> first_conv ev x k' \<Longrightarrow> k = k'"
  by (metis first_conv_def linorder_neqE_nat)

text \<open>
  Claim C1. The Newton update is applied on every pass, and the loop returns a node
  exactly when the test \<open>|dx| <= 3e-14\<close> holds first on some pass \<open>k <= 99\<close>; the node
  it returns is then the value after pass \<open>k + 1\<close>, that is, one more update is applied
  after the pass that first observed convergence, and \<open>dpdx\<close> is the derivative that
  this last pass evaluated. (\<open>gauss_legendre_tbl\<close> runs the loop with
  \<open>ev = legendre_eval n\<close> and writes the returned node to \<open>x\<close>.)
\<close>

theorem newton_loop_one_extra_pass:
  "newton_loop ev x0 False 0 = Inr (x, dpdx) \<longleftrightarrow>
     (\<exists>k. k \<le> 99 \<and> first_conv ev x0 k
          \<and> x = (newton_step ev ^^ Suc k) x0
          \<and> dpdx = snd (ev ((newton_step ev ^^ k) x0)))"
proof
  assume r: "newton_loop ev x0 False 0 = Inr (x, dpdx)"
  have "\<exists>k. 1 \<le> k \<and> k \<le> 99 \<and> conv_on_pass ev x0 k"
  proof (rule ccontr)
    assume "\<not> ?thesis"
    then have "newton_loop ev x0 False 0 = Inl ConvergenceError"
      by (intro newton_loop_no_conv) auto
    with r show False by simp
  qed
  then obtain k where "k \<le> 99" "first_conv ev x0 k"
    using first_conv_exists by blast
  moreover from this have "newton_loop ev x0 False 0
      = Inr ((newton_step ev ^^ Suc k) x0, snd (ev ((newton_step ev ^^ k) x0)))"
    by (intro newton_loop_first_conv) auto
  ultimately show "\<exists>k. k \<le> 99 \<and> first_conv ev x0 k
          \<and> x = (newton_step ev ^^ Suc k) x0
          \<and> dpdx = snd (ev ((newton_step ev ^^ k) x0))"
    using r by auto
next
  assume "\<exists>k. k \<le> 99 \<and> first_conv ev x0 k
          \<and> x = (newton_step ev ^^ Suc k) x0
          \<and> dpdx = snd (ev ((newton_step ev ^^ k) x0))"
  then obtain k where k: "k \<le> 99" "first_conv ev x0 k"
     "x = (newton_step ev ^^ Suc k) x0" "dpdx = snd (ev ((newton_step ev ^^ k) x0))"
    by blast
  have "newton_loop ev x0 False 0
      = Inr ((newton_step ev ^^ Suc k) x0, snd (ev ((newton_step ev ^^ k) x0)))"
    using k(1,2) by (intro newton_loop_first_conv) auto
  then show "newton_loop ev x0 False 0 = Inr (x, dpdx)" using k by simp
qed

text \<open>
  Claim C2. The loop leaves through \<^verbatim>\<open>break\<close> on the pass after the one that first
  meets the test \<open>|dx| <= 3e-14\<close>, and \<^verbatim>\<open>UTIL_ASSERT(++j<100, ...)\<close> ends every
  other pass. So when the test is met on a pass \<open>k\<close> whose exit pass \<open>k + 1\<close> is within
  the budget of 100 passes (\<open>k <= 99\<close>), the loop returns a node and no error is raised;
  and when the test is met on none of these passes, completing the loop would take
  more than 100 passes and the loop fails with ConvergenceError. This holds for every
  evaluation \<open>ev\<close> and start value \<open>x0\<close>, so for \<open>ev = legendre_eval n\<close> of every order
  \<open>n\<close> and the start value of every node index, as \<open>gl_loop\<close> runs it; \<open>gl_loop\<close> hands
  the error of a node on as the result of \<open>gauss_legendre_tbl\<close>.
\<close>

theorem newton_loop_pass_budget:
  "(if \<exists>k. 1 \<le> k \<and> k \<le> 99 \<and> conv_on_pass ev x0 k
    then \<exists>r. newton_loop ev x0 False 0 = Inr r
    else newton_loop ev x0 False 0 = Inl ConvergenceError)"
proof (cases "\<exists>k. 1 \<le> k \<and> k \<le> 99 \<and> conv_on_pass ev x0 k")
  case True
  then obtain k where "k \<le> 99" "first_conv ev x0 k"
    using first_conv_exists by blast
  then have "newton_loop ev x0 False 0
      = Inr ((newton_step ev ^^ Suc k) x0, snd (ev ((newton_step ev ^^ k) x0)))"
    by (intro newton_loop_first_conv) auto
  with True show ?thesis by simp
next
  case False
  then have "newton_loop ev x0 False 0 = Inl ConvergenceError"
    by (intro newton_loop_no_conv) auto
  with False show ?thesis by simp
qed


lemma legendre_eval_1_0: "legendre_eval 1 (Fin 0) = (Fin 0, Fin 1)"
  by (simp add: legendre_eval_def legendre_loop.simps dbl_ops)

lemma newton_step_1_0: "newton_step (legendre_eval 1) (Fin 0) = Fin 0"
  by (simp add: newton_step_def legendre_eval_1_0 dbl_ops)

lemma conv_on_pass_1_0: "conv_on_pass (legendre_eval 1) (Fin 0) 1"
  by (simp add: conv_on_pass_def newton_dx_def newton_step_1_0 newton_eps_def dbl_ops)

theorem newton_loop_one_extra_pass_witness:
  "newton_loop (legendre_eval 1) (Fin 0) False 0 = Inr (Fin 0, Fin 1)
   \<and> first_conv (legendre_eval 1) (Fin 0) 1
   \<and> (newton_step (legendre_eval 1) ^^ Suc 1) (Fin 0) = Fin 0
   \<and> snd (legendre_eval 1 ((newton_step (legendre_eval 1) ^^ 1) (Fin 0))) = Fin 1"
proof -
  have fc: "first_conv (legendre_eval 1) (Fin 0) 1"
    using conv_on_pass_1_0 by (simp add: first_conv_def)
  have it: "(newton_step (legendre_eval 1) ^^ Suc 1) (Fin 0) = Fin 0"
    by (simp add: newton_step_1_0)
  have dp: "snd (legendre_eval 1 ((newton_step (legendre_eval 1) ^^ 1) (Fin 0))) = Fin 1"
    by (simp add: newton_step_1_0 legendre_eval_1_0)
  have "newton_loop (legendre_eval 1) (Fin 0) False 0 = Inr (Fin 0, Fin 1)"
    using newton_loop_one_extra_pass[of "legendre_eval 1" "Fin 0" "Fin 0" "Fin 1"] fc it dp
    by (metis one_le_numeral)
  then show ?thesis using fc it dp by simp
qed

theorem newton_loop_pass_budget_witness:
  "conv_on_pass (legendre_eval 1) (Fin 0) 1
   \<and> (\<exists>r. newton_loop (legendre_eval 1) (Fin 0) False 0 = Inr r)"
proof -
  have "\<exists>k. 1 \<le> k \<and> k \<le> 99 \<and> conv_on_pass (legendre_eval 1) (Fin 0) k"
    using conv_on_pass_1_0 by (intro exI[of _ 1]) simp
  then show ?thesis
    using newton_loop_pass_budget[of "legendre_eval 1" "Fin 0"] conv_on_pass_1_0 by simp
qed

section \<open>Properties of the Gauss, ECP and Driscoll-Healy builders\<close>

lemma and_1_ecp: "((nrings::int) AND 1) = 0 \<longleftrightarrow> even nrings"
  by (simp add: and_one_eq even_iff_mod_2_eq_zero)

lemma and_1_hw: "((nrings::int) AND 1) = 1 \<longleftrightarrow> odd nrings"
  by (simp add: and_one_eq odd_iff_mod_2_eq_one)

text \<open>
  Claim C4. \<open>sharp_make_ecp_geom_info\<close> fails with ConfigError whenever \<open>nrings\<close> is
  odd, and \<open>sharp_make_hw_geom_info\<close> fails with ConfigError whenever \<open>nrings\<close> is even.
  The result is then \<open>Inl\<close>: the call of \<open>sharp_make_geom_info\<close> is not reached and no
  arrays are handed over or returned.
\<close>

theorem parity_config_errors:
  "(odd nrings \<longrightarrow>
      sharp_make_ecp_geom_info nrings nphi phi0 stride_lon stride_lat = Inl ConfigError)
   \<and> (even nrings \<longrightarrow>
      sharp_make_hw_geom_info nrings ppring phi0 stride_lon stride_lat = Inl ConfigError)"
  by (simp add: sharp_make_ecp_geom_info_def sharp_make_hw_geom_info_def UTIL_ASSERT_def
        and_1_ecp and_1_hw)

theorem parity_config_errors_witness:
  "odd (5::int) \<and> sharp_make_ecp_geom_info 5 4 (Fin 0) 1 4 = Inl ConfigError
   \<and> even (6::int) \<and> sharp_make_hw_geom_info 6 4 (Fin 0) 1 4 = Inl ConfigError"
  using parity_config_errors[of 5 4 "Fin 0" 1 4] parity_config_errors[of 6 4 "Fin 0" 1 4 4]
  by simp

lemma for_rings_fields:
  assumes "for_rings body ms = Inr rs" "\<And>m r. body m = Inr r \<Longrightarrow> f r = v"
  shows "map f rs = replicate (length ms) v"
proof -
  have l2: "list_all2 (\<lambda>m r. body (int m) = Inr r) ms rs"
    using assms(1) by (rule for_rings_Inr)
  then have "length rs = length ms" by (auto dest: list_all2_lengthD)
  moreover have "f (rs ! i) = v" if "i < length rs" for i
    using l2 that assms(2) by (auto simp: list_all2_conv_all_nth)
  ultimately show ?thesis by (intro nth_equalityI) auto
qed

lemma ecp_phi0:
  assumes "sharp_make_ecp_geom_info nrings nphi phi0 stride_lon stride_lat = Inr g"
  shows "g_phi0 g = replicate (nat nrings) phi0"
proof -
  obtain rs where rs: "for_rings (ecp_ring nrings nphi phi0 stride_lon stride_lat
        (makeweights (c_div nrings 2))) [0..<nat nrings] = Inr rs"
      and g: "g = sharp_make_geom_info nrings rs"
    using assms
    by (auto simp: sharp_make_ecp_geom_info_def Let_def split: sum.splits)
  have "map r_phi0 rs = replicate (length [0..<nat nrings]) phi0"
    using rs by (rule for_rings_fields) (auto simp: ecp_ring_def split: sum.splits)
  then show ?thesis by (simp add: g sharp_make_geom_info_def)
qed

lemma hw_phi0:
  assumes "sharp_make_hw_geom_info nrings ppring phi0 stride_lon stride_lat = Inr g"
  shows "g_phi0 g = replicate (nat nrings) phi0"
proof -
  obtain rs where rs: "for_rings (\<lambda>m. Inr (hw_ring nrings ppring phi0 stride_lon stride_lat
        (c_div (c_int (nrings - 1)) 2) m)) [0..<nat nrings] = Inr rs"
      and g: "g = sharp_make_geom_info nrings rs"
    using assms
    by (auto simp: sharp_make_hw_geom_info_def Let_def split: sum.splits)
  have "map r_phi0 rs = replicate (length [0..<nat nrings]) phi0"
    using rs by (rule for_rings_fields) (auto simp: hw_ring_def Let_def)
  then show ?thesis by (simp add: g sharp_make_geom_info_def)
qed

lemma gauss_phi0:
  assumes "sharp_make_gauss_geom_info nrings nphi stride_lon stride_lat = Inr g"
  shows "g_phi0 g = replicate (nat nrings) (Fin 0)"
proof -
  obtain theta weight rs where
      rs: "for_rings (gauss_ring nphi stride_lon stride_lat theta weight) [0..<nat nrings] = Inr rs"
      and g: "g = sharp_make_geom_info nrings rs"
    using assms
    by (auto simp: sharp_make_gauss_geom_info_def Let_def split: sum.splits prod.splits)
  have "map r_phi0 rs = replicate (length [0..<nat nrings]) (Fin 0)"
    using rs by (rule for_rings_fields) (auto simp: gauss_ring_def split: sum.splits)
  then show ?thesis by (simp add: g sharp_make_geom_info_def)
qed

lemma phi0_in_range_Fin: "phi0_in_range (Fin r) \<longleftrightarrow> 0 \<le> r \<and> r < 2 * pi"
  by (simp add: phi0_in_range_def pi_d_def dbl_ops)

lemma healpix_ring_phi0:
  assumes "0 < nside" "4 * nside \<le> INT_MAX" "0 \<le> m" "m < 4 * nside - 1"
    and "healpix_ring nside stride weight m = Inr r"
  shows "phi0_in_range (r_phi0 r)"
proof -
  define k where "k = r_nph r"
  have k: "1 \<le> k"
    using healpix_ring_nph(1)[OF assms] ring_nph_pos[OF assms(1,3,4)] by (simp add: k_def)
  have "pi / real_of_int k \<le> pi / 1"
    using k by (intro divide_left_mono) auto
  then have 1: "0 \<le> pi / real_of_int k" "pi / real_of_int k < 2 * pi"
    using k pi_gt_zero by (simp, linarith)
  have 2: "pi_d / of_i k = Fin (pi / real_of_int k)"
    using k by (simp add: pi_d_def dbl_ops)
  have "r_phi0 r = Fin 0 \<or> r_phi0 r = pi_d / of_i k"
    using healpix_ring_nph(3)[OF assms] by (simp add: k_def)
  then show ?thesis
    using 1 2 by (auto simp: phi0_in_range_Fin)
qed

lemma healpix_phi0:
  assumes "0 < nside" "4 * nside \<le> INT_MAX" "int (length weight) = 2 * nside"
  shows "\<exists>g. sharp_make_weighted_healpix_geom_info nside stride weight = Inr g
            \<and> length (g_phi0 g) = nat (4 * nside - 1)
            \<and> (\<forall>m < length (g_phi0 g).
                  (g_phi0 g ! m = Fin 0 \<or> g_phi0 g ! m = pi_d / of_i (g_nph g ! m))
                  \<and> phi0_in_range (g_phi0 g ! m))"
proof -
  have N: "c_int (4 * nside - 1) = 4 * nside - 1"
    using assms(1,2) by (intro c_int_id) (auto simp: INT_MAX_def)
  obtain rs where rs: "sharp_make_weighted_healpix_geom_info nside stride weight
             = Inr (sharp_make_geom_info (4 * nside - 1) rs)"
    "length rs = nat (4 * nside - 1)"
    "\<forall>m < nat (4 * nside - 1). healpix_ring nside stride weight (int m) = Inr (rs ! m)"
    using healpix_rings[of nside weight stride] assms unfolding N by auto
  have "(r_phi0 (rs ! m) = Fin 0 \<or> r_phi0 (rs ! m) = pi_d / of_i (r_nph (rs ! m)))
      \<and> phi0_in_range (r_phi0 (rs ! m))" if "m < length rs" for m
  proof -
    have m: "0 \<le> int m" "int m < 4 * nside - 1" using that rs(2) by auto
    have h: "healpix_ring nside stride weight (int m) = Inr (rs ! m)"
      using rs(2,3) that by simp
    show ?thesis
      using healpix_ring_nph(3)[OF assms(1,2) m h] healpix_ring_phi0[OF assms(1,2) m h]
      by simp
  qed
  then show ?thesis using rs(1,2) by (simp add: sharp_make_geom_info_def)
qed


lemma makeweights_length: "length (makeweights bw) = nat (c_int (2 * bw))"
  by (simp add: makeweights_def Let_def)

lemma c_div_2: "0 \<le> a \<Longrightarrow> c_div a 2 = a div 2"
  by (cases "a = 0") (simp_all add: c_div_def)

lemma ecp_ok:
  assumes "even nrings" "nrings \<le> INT_MAX"
  shows "\<exists>g. sharp_make_ecp_geom_info nrings nphi phi0 stride_lon stride_lat = Inr g"
proof -
  let ?w = "makeweights (c_div nrings 2)"
  have "\<exists>r. ecp_ring nrings nphi phi0 stride_lon stride_lat ?w (int m) = Inr r"
    if "m \<in> set [0..<nat nrings]" for m
  proof -
    from that have m: "int m < nrings" "0 \<le> nrings" by auto
    then have "2 * c_div nrings 2 = nrings" using assms(1) by (simp add: c_div_2)
    moreover have "c_int nrings = nrings"
      using m assms(2) by (intro c_int_id) (auto simp: INT_MAX_def)
    ultimately have "int m < int (length ?w)" using m by (simp add: makeweights_length)
    then show ?thesis by (simp add: ecp_ring_def read_dbl_def)
  qed
  then have "\<exists>rs. for_rings (ecp_ring nrings nphi phi0 stride_lon stride_lat ?w) [0..<nat nrings] = Inr rs"
    by (rule for_rings_total)
  then show ?thesis using assms(1)
    by (auto simp: sharp_make_ecp_geom_info_def UTIL_ASSERT_def and_1_ecp Let_def)
qed

lemma hw_ok:
  assumes "odd nrings"
  shows "\<exists>g. sharp_make_hw_geom_info nrings ppring phi0 stride_lon stride_lat = Inr g"
proof -
  have "\<exists>rs. for_rings (\<lambda>m. Inr (hw_ring nrings ppring phi0 stride_lon stride_lat
        (c_div (c_int (nrings - 1)) 2) m)) [0..<nat nrings] = Inr rs"
    by (rule for_rings_total) simp
  then show ?thesis using assms
    by (auto simp: sharp_make_hw_geom_info_def UTIL_ASSERT_def and_1_hw Let_def)
qed

lemma newton_loop_1_0: "newton_loop (legendre_eval 1) (Fin 0) False 0 = Inr (Fin 0, Fin 1)"
proof -
  have "first_conv (legendre_eval 1) (Fin 0) 1"
    using conv_on_pass_1_0 by (simp add: first_conv_def)
  then have "newton_loop (legendre_eval 1) (Fin 0) False 0
      = Inr ((newton_step (legendre_eval 1) ^^ Suc 1) (Fin 0),
             snd (legendre_eval 1 ((newton_step (legendre_eval 1) ^^ 1) (Fin 0))))"
    by (intro newton_loop_first_conv) auto
  then show ?thesis by (simp add: newton_step_1_0 legendre_eval_1_0)
qed

lemma seed_1: "c_cos (pi_d * of_i (c_int (push_bit 2 1 - 1)) * Fin (1 / 6)) * Fin 1 = Fin 0"
proof -
  have "pi * 3 * (1 / 6) = pi / 2" by simp
  then have "cos (pi * 3 * (1 / 6)) = 0" by (simp only: cos_pi_half)
  then show ?thesis by (simp add: pi_d_def dbl_ops c_int_def)
qed

lemma gauss_legendre_tbl_1: "gauss_legendre_tbl 1 [NaN] [NaN] = Inr ([Fin 0], [Fin 2])"
proof -
  have "gl_loop 1 1 (Fin 1) (Fin (1 / 6)) 1 [NaN] [NaN] = Inr ([Fin 0], [Fin 2])"
    apply (subst gl_loop.simps)
    apply (simp only: seed_1 Let_def)
    apply (simp add: newton_loop_1_0 write_dbl_def dbl_ops)
    apply (subst gl_loop.simps)
    apply simp
    done
  moreover have "drop_bit 1 (c_int (1 + 1)) = 1" by (simp add: c_int_def)
  ultimately show ?thesis
    by (simp add: gauss_legendre_tbl_def dbl_ops)
qed

lemma gauss_1_ok: "\<exists>g. sharp_make_gauss_geom_info 1 1 1 1 = Inr g"
  by (simp add: sharp_make_gauss_geom_info_def RALLOC_def gauss_legendre_tbl_1 gauss_ring_def
      read_dbl_def)




lemma newton_loop_result:
  "(\<exists>r. newton_loop ev x0 False 0 = Inr r) \<or> newton_loop ev x0 False 0 = Inl ConvergenceError"
proof (cases "\<exists>k. 1 \<le> k \<and> k \<le> 99 \<and> conv_on_pass ev x0 k")
  case True
  then obtain k where "k \<le> 99" "first_conv ev x0 k"
    using first_conv_exists by blast
  then have "newton_loop ev x0 False 0
      = Inr ((newton_step ev ^^ Suc k) x0, snd (ev ((newton_step ev ^^ k) x0)))"
    by (intro newton_loop_first_conv) auto
  then show ?thesis by simp
next
  case False
  then have "newton_loop ev x0 False 0 = Inl ConvergenceError"
    by (intro newton_loop_no_conv) auto
  then show ?thesis by simp
qed

text \<open>
  The only error of the loop over the nodes is the ConvergenceError of a node's
  Newton loop (the arrays have the \<open>n\<close> cells the builder allocates).
\<close>

lemma gl_loop_error:
  assumes "2 * m \<le> n + 1"
  shows "gl_loop n m t0 t1 i x w = Inl e \<Longrightarrow> 1 \<le> i
    \<Longrightarrow> int (length x) = n \<Longrightarrow> int (length w) = n
    \<Longrightarrow> e = ConvergenceError
      \<and> (\<exists>k. i \<le> k \<and> k \<le> m
            \<and> newton_loop (legendre_eval n)
                 (c_cos (pi_d * of_i (c_int (push_bit 2 k - 1)) * t1) * t0) False 0
               = Inl ConvergenceError)"
proof (induction "nat (m + 1 - i)" arbitrary: i x w)
  case 0
  then have mi: "m < i" by simp
  with 0(2) show ?case by (simp add: gl_loop.simps[of n m t0 t1 i])
next
  case (Suc d)
  then have im: "i \<le> m" by simp
  have rng: "0 \<le> i - 1" "i - 1 < n" "0 \<le> n - i" "n - i < n"
    using im Suc.prems(2) assms by auto
  define s where "s = c_cos (pi_d * of_i (c_int (push_bit 2 i - 1)) * t1) * t0"
  show ?case
  proof (cases "newton_loop (legendre_eval n) s False 0")
    case (Inl e')
    then have "e' = ConvergenceError"
      using newton_loop_result[of "legendre_eval n" s] by auto
    moreover have "e = e'"
      using Suc.prems(1) im Inl[unfolded s_def]
      by (subst (asm) gl_loop.simps) (simp add: Let_def)
    ultimately show ?thesis
      using Inl im unfolding s_def by blast
  next
    case (Inr r)
    obtain x0 dpdx where r: "r = (x0, dpdx)" by (cases r)
    have rec: "gl_loop n m t0 t1 (i + 1) (x[nat (i - 1) := - x0, nat (n - i) := x0])
          (w[nat (n - i) := Fin 2 / ((Fin 1 - x0 * x0) * dpdx * dpdx),
             nat (i - 1) := Fin 2 / ((Fin 1 - x0 * x0) * dpdx * dpdx)]) = Inl e"
      using Suc.prems(1,3,4) im Inr[unfolded s_def r] rng
      by (subst (asm) gl_loop.simps) (simp add: write_dbl_def Let_def)
    have d: "d = nat (m + 1 - (i + 1))" using Suc.hyps(2) by simp
    have "e = ConvergenceError
      \<and> (\<exists>k. i + 1 \<le> k \<and> k \<le> m
            \<and> newton_loop (legendre_eval n)
                 (c_cos (pi_d * of_i (c_int (push_bit 2 k - 1)) * t1) * t0) False 0
               = Inl ConvergenceError)"
      using Suc.prems(2,3,4) by (intro Suc.hyps(1)[OF d rec]) auto
    then obtain k where k: "e = ConvergenceError" "i + 1 \<le> k" "k \<le> m"
        "newton_loop (legendre_eval n)
           (c_cos (pi_d * of_i (c_int (push_bit 2 k - 1)) * t1) * t0) False 0
         = Inl ConvergenceError"
      by blast
    from k(2) have "i \<le> k" by simp
    with k(1,3,4) show ?thesis by blast
  qed
qed

lemma gauss_legendre_tbl_loop:
  assumes "1 \<le> n" "n < INT_MAX"
  shows "gauss_legendre_tbl n x w
      = gl_loop n ((n + 1) div 2)
          (Fin 1 - (Fin 1 - Fin 1 / of_i n) / (Fin 8 * of_i n * of_i n))
          (Fin 1 / (Fin 4 * of_i n + Fin 2)) 1 x w"
proof -
  have "c_int (n + 1) = n + 1"
    using assms by (intro c_int_id) (auto simp: INT_MAX_def)
  then show ?thesis
    by (simp add: gauss_legendre_tbl_def Let_def drop_bit_eq_div)
qed

text \<open>
  A failure of \<open>gauss_legendre_tbl\<close> is the ConvergenceError of one of its nodes, and
  when it returns, the Newton loop of every node has returned.
\<close>

lemma gauss_legendre_tbl_error:
  assumes "1 \<le> n" "n < INT_MAX" "int (length x) = n" "int (length w) = n"
    and "gauss_legendre_tbl n x w = Inl e"
  shows "e = ConvergenceError"
    "\<exists>i. 1 \<le> i \<and> 2 * i \<le> n + 1 \<and> gl_node n i = Inl ConvergenceError"
proof -
  have m: "2 * ((n + 1) div 2) \<le> n + 1" by simp
  note r = gl_loop_error[OF m assms(5)[unfolded gauss_legendre_tbl_loop[OF assms(1,2)]] _ assms(3,4)]
  show "e = ConvergenceError" using r by simp
  obtain k where "1 \<le> k" "k \<le> (n + 1) div 2" "gl_node n k = Inl ConvergenceError"
    using r by (auto simp: gl_node_def Let_def)
  moreover from this have "2 * k \<le> n + 1" by linarith
  ultimately show "\<exists>i. 1 \<le> i \<and> 2 * i \<le> n + 1 \<and> gl_node n i = Inl ConvergenceError"
    by blast
qed







text \<open>
  Claim C9, as amended. For every \<open>nside > 0\<close> with \<open>4 * nside <= INT_MAX\<close> the HEALPix
  builders succeed and every \<open>phi0[m]\<close> they hand over is 0 or \<open>pi / nphi[m]\<close> and lies in
  \<open>[0, 2 pi)\<close>; every \<open>phi0[m]\<close> of a successful Gauss builder is 0 and so lies in
  \<open>[0, 2 pi)\<close>. The ECP and Driscoll-Healy builders store the caller's \<open>phi0\<close> unchanged
  in every ring, so their \<open>phi0[m]\<close> is in that interval exactly when the caller's
  value is.
\<close>

theorem phi0_by_builder:
  "(0 < nside \<and> 4 * nside \<le> INT_MAX \<and> int (length weight) = 2 * nside \<longrightarrow>
      (\<exists>g. sharp_make_weighted_healpix_geom_info nside stride weight = Inr g
           \<and> (\<forall>m < length (g_phi0 g).
                 (g_phi0 g ! m = Fin 0 \<or> g_phi0 g ! m = pi_d / of_i (g_nph g ! m))
                 \<and> phi0_in_range (g_phi0 g ! m))))
   \<and> (0 < nside \<and> 4 * nside \<le> INT_MAX \<longrightarrow>
      (\<exists>g. sharp_make_healpix_geom_info nside stride = Inr g
           \<and> (\<forall>m < length (g_phi0 g).
                 (g_phi0 g ! m = Fin 0 \<or> g_phi0 g ! m = pi_d / of_i (g_nph g ! m))
                 \<and> phi0_in_range (g_phi0 g ! m))))
   \<and> (sharp_make_gauss_geom_info nrings nphi stride_lon stride_lat = Inr gg \<longrightarrow>
        g_phi0 gg = replicate (nat nrings) (Fin 0)
        \<and> (\<forall>m < length (g_phi0 gg). phi0_in_range (g_phi0 gg ! m)))
   \<and> (sharp_make_ecp_geom_info nrings nphi phi0 stride_lon stride_lat = Inr ge \<longrightarrow>
        g_phi0 ge = replicate (nat nrings) phi0
        \<and> (\<forall>m < length (g_phi0 ge). phi0_in_range (g_phi0 ge ! m) = phi0_in_range phi0))
   \<and> (sharp_make_hw_geom_info nrings ppring phi0 stride_lon stride_lat = Inr gh \<longrightarrow>
        g_phi0 gh = replicate (nat nrings) phi0
        \<and> (\<forall>m < length (g_phi0 gh). phi0_in_range (g_phi0 gh ! m) = phi0_in_range phi0))"
proof (intro conjI impI)
  assume "0 < nside \<and> 4 * nside \<le> INT_MAX \<and> int (length weight) = 2 * nside"
  then show "\<exists>g. sharp_make_weighted_healpix_geom_info nside stride weight = Inr g
           \<and> (\<forall>m < length (g_phi0 g).
                 (g_phi0 g ! m = Fin 0 \<or> g_phi0 g ! m = pi_d / of_i (g_nph g ! m))
                 \<and> phi0_in_range (g_phi0 g ! m))"
    using healpix_phi0[of nside weight stride] by blast
next
  assume "0 < nside \<and> 4 * nside \<le> INT_MAX"
  then show "\<exists>g. sharp_make_healpix_geom_info nside stride = Inr g
           \<and> (\<forall>m < length (g_phi0 g).
                 (g_phi0 g ! m = Fin 0 \<or> g_phi0 g ! m = pi_d / of_i (g_nph g ! m))
                 \<and> phi0_in_range (g_phi0 g ! m))"
    using healpix_phi0[of nside "replicate (nat (2 * nside)) (Fin 1)" stride]
    by (auto simp: sharp_make_healpix_geom_info_def)
next
  assume g: "sharp_make_gauss_geom_info nrings nphi stride_lon stride_lat = Inr gg"
  then show e: "g_phi0 gg = replicate (nat nrings) (Fin 0)" by (rule gauss_phi0)
  show "\<forall>m < length (g_phi0 gg). phi0_in_range (g_phi0 gg ! m)"
    by (simp add: e phi0_in_range_Fin)
next
  assume "sharp_make_ecp_geom_info nrings nphi phi0 stride_lon stride_lat = Inr ge"
  then show e: "g_phi0 ge = replicate (nat nrings) phi0" by (rule ecp_phi0)
  show "\<forall>m < length (g_phi0 ge). phi0_in_range (g_phi0 ge ! m) = phi0_in_range phi0"
    by (simp add: e)
next
  assume "sharp_make_hw_geom_info nrings ppring phi0 stride_lon stride_lat = Inr gh"
  then show e: "g_phi0 gh = replicate (nat nrings) phi0" by (rule hw_phi0)
  show "\<forall>m < length (g_phi0 gh). phi0_in_range (g_phi0 gh ! m) = phi0_in_range phi0"
    by (simp add: e)
qed

theorem phi0_by_builder_witness:
  "(0::int) < 2 \<and> 4 * 2 \<le> INT_MAX \<and> int (length [Fin 1, Fin 1, Fin 1, Fin 1]) = 2 * 2
   \<and> (\<exists>g. sharp_make_weighted_healpix_geom_info 2 1 [Fin 1, Fin 1, Fin 1, Fin 1] = Inr g
           \<and> list_all phi0_in_range (g_phi0 g))
   \<and> (\<exists>g. sharp_make_healpix_geom_info 2 1 = Inr g \<and> list_all phi0_in_range (g_phi0 g))
   \<and> (\<exists>g. sharp_make_gauss_geom_info 1 1 1 1 = Inr g \<and> g_phi0 g = [Fin 0])
   \<and> (\<exists>g. sharp_make_ecp_geom_info 2 1 (Fin 1) 1 1 = Inr g \<and> g_phi0 g = [Fin 1, Fin 1])
   \<and> (\<exists>g. sharp_make_hw_geom_info 3 1 (Fin 1) 1 1 = Inr g \<and> g_phi0 g = [Fin 1, Fin 1, Fin 1])"
proof -
  obtain gg where gg: "sharp_make_gauss_geom_info 1 1 1 1 = Inr gg"
    using gauss_1_ok by blast
  obtain ge where ge: "sharp_make_ecp_geom_info 2 1 (Fin 1) 1 1 = Inr ge"
    using ecp_ok[of 2 1 "Fin 1" 1 1] by (auto simp: INT_MAX_def)
  obtain gh where gh: "sharp_make_hw_geom_info 3 1 (Fin 1) 1 1 = Inr gh"
    using hw_ok[of 3 1 "Fin 1" 1 1] by auto
  have r2: "replicate 2 x = [x, x]" and r3: "replicate 3 x = [x, x, x]" for x :: dbl
    by (simp_all add: numeral_2_eq_2 numeral_3_eq_3)
  have hp: "\<exists>g. sharp_make_weighted_healpix_geom_info 2 1 [Fin 1, Fin 1, Fin 1, Fin 1] = Inr g
           \<and> list_all phi0_in_range (g_phi0 g)"
      "\<exists>g. sharp_make_healpix_geom_info 2 1 = Inr g \<and> list_all phi0_in_range (g_phi0 g)"
    using phi0_by_builder[of 2 "[Fin 1, Fin 1, Fin 1, Fin 1]" 1, THEN conjunct1]
      phi0_by_builder[of 2 "[Fin 1, Fin 1, Fin 1, Fin 1]" 1, THEN conjunct2, THEN conjunct1]
    by (auto simp: INT_MAX_def list_all_length)
  have "g_phi0 gg = [Fin 0]"
    using phi0_by_builder[of _ _ _ 1 1 1 1 gg] gg
    by simp
  moreover have "g_phi0 ge = [Fin 1, Fin 1]"
    using phi0_by_builder[of _ _ _ 2 1 1 1 _ "Fin 1" ge] ge
    by (simp add: r2)
  moreover have "g_phi0 gh = [Fin 1, Fin 1, Fin 1]"
    using phi0_by_builder[of _ _ _ 3 _ 1 1 _ "Fin 1" _ 1 gh] gh
    by (simp add: r3)
  ultimately show ?thesis
    using hp gg ge gh by (simp add: INT_MAX_def)
qed

text \<open>
  The claim C9 as stated fails: called with \<open>phi0 = -1\<close> the ECP builder, and called
  with \<open>phi0 = 8\<close> the Driscoll-Healy builder, hand over that value in every ring. It
  also fails for the HEALPix builder at \<open>nside = 536870912\<close>, where \<open>4 * nside\<close> wraps:
  ring 536870911 has \<open>nphi = - 2147483648\<close> and \<open>phi0 = pi / nphi < 0\<close>.
\<close>

theorem ecp_hw_phi0_counterexample:
  "map_sum id g_phi0 (sharp_make_ecp_geom_info 2 1 (Fin (- 1)) 1 1) = Inr [Fin (- 1), Fin (- 1)]
   \<and> \<not> phi0_in_range (Fin (- 1))
   \<and> map_sum id g_phi0 (sharp_make_hw_geom_info 3 1 (Fin 8) 1 1) = Inr [Fin 8, Fin 8, Fin 8]
   \<and> \<not> phi0_in_range (Fin 8)
   \<and> map_sum id (phi0_at 536870911) (sharp_make_healpix_geom_info 536870912 1)
       = Inr (Fin (- (pi / 2147483648)))
   \<and> \<not> phi0_in_range (Fin (- (pi / 2147483648)))"
proof -
  obtain ge where ge: "sharp_make_ecp_geom_info 2 1 (Fin (- 1)) 1 1 = Inr ge"
    using ecp_ok[of 2 1 "Fin (- 1)" 1 1] by (auto simp: INT_MAX_def)
  obtain gh where gh: "sharp_make_hw_geom_info 3 1 (Fin 8) 1 1 = Inr gh"
    using hw_ok[of 3 1 "Fin 8" 1 1] by auto
  obtain rs where rs:
      "sharp_make_healpix_geom_info 536870912 1 = Inr (sharp_make_geom_info 2147483647 rs)"
      "length rs = 2147483647"
      "\<forall>m < 2147483647.
         healpix_ring 536870912 1 (replicate 1073741824 (Fin 1)) (int m) = Inr (rs ! m)"
    using healpix_rings_2_29 by blast
  have "healpix_ring 536870912 1 (replicate 1073741824 (Fin 1)) (int 536870911)
      = Inr (rs ! 536870911)"
    using rs(3)[rule_format, of 536870911] by simp
  then have "r_phi0 (rs ! 536870911) = Fin (- (pi / 2147483648))"
    using healpix_belt_ring_2_29(2) by simp
  then have hp: "map_sum id (phi0_at 536870911) (sharp_make_healpix_geom_info 536870912 1)
       = Inr (Fin (- (pi / 2147483648)))"
    using rs(2) by (simp add: rs(1) phi0_at_def sharp_make_geom_info_def)
  have "g_phi0 ge = [Fin (- 1), Fin (- 1)]"
    using ecp_phi0[OF ge] by (simp add: numeral_2_eq_2)
  moreover have "g_phi0 gh = [Fin 8, Fin 8, Fin 8]"
    using hw_phi0[OF gh] by (simp add: numeral_3_eq_3)
  moreover have "\<not> phi0_in_range (Fin 8)"
    using pi_less_4 by (simp add: phi0_in_range_Fin)
  ultimately show ?thesis
    by (simp add: ge gh hp phi0_in_range_Fin)
qed

lemma hw_ring_1:
  "hw_ring 1 ppring phi0 stride_lon stride_lat 0 0
     = \<lparr>r_theta = NaN, r_nph = ppring, r_phi0 = phi0, r_ofs = 0, r_stride = stride_lon,
        r_weight = NaN\<rparr>"
  by (simp add: hw_ring_def eps_def pi_d_def dbl_ops Let_def c_int_def c_ptrdiff_def)

lemma hw_1:
  "sharp_make_hw_geom_info 1 ppring phi0 stride_lon stride_lat
     = Inr \<lparr>g_nrings = 1, g_nph = [ppring], g_ofs = [0], g_stride = [stride_lon],
            g_phi0 = [phi0], g_theta = [NaN], g_weight = [NaN]\<rparr>"
  by (simp add: sharp_make_hw_geom_info_def UTIL_ASSERT_def c_div_def c_int_def hw_ring_1
        sharp_make_geom_info_def)

text \<open>
  Claim C6 at \<open>nrings = 1\<close>, which is odd and passes the assertion: \<open>pi*m/(nrings-1.)\<close>
  is \<open>0.0/0.0\<close>, both clamps compare false, and the ring's \<open>theta\<close> is NaN, not a value
  inside \<open>(0, pi)\<close>.
\<close>

theorem hw_one_ring_theta_nan:
  "map_sum id g_theta (sharp_make_hw_geom_info 1 ppring phi0 stride_lon stride_lat) = Inr [NaN]"
  by (simp add: hw_1)

text \<open>
  Claim C7 at \<open>nrings = 1\<close>: \<open>lmax\<close> is 0, \<open>prefac\<close> is \<open>2 pi / 0\<close>, the cosine's argument
  is \<open>0.0/0\<close>, and the weight handed over is NaN: neither finite nor non-negative.
\<close>

theorem hw_one_ring_weight_nan:
  "map_sum id g_weight (sharp_make_hw_geom_info 1 ppring phi0 stride_lon stride_lat) = Inr [NaN]"
  by (simp add: hw_1)


text \<open>
  From two rings on the clamps do what they are there for: every \<open>theta\<close> is a finite
  value in \<open>[1e-15, pi - 1e-15]\<close>. For \<open>nrings = 5\<close> the values are strictly increasing,
  start and end at the clamp bounds and are symmetric about \<open>pi/2\<close> (in the exact
  arithmetic of the model).
\<close>

lemma hw_theta_clamped:
  assumes "2 \<le> nrings"
  shows "\<exists>t. r_theta (hw_ring nrings ppring phi0 stride_lon stride_lat lmax m) = Fin t
            \<and> 1 / 10 ^ 15 \<le> t \<and> t \<le> pi - 1 / 10 ^ 15"
proof -
  define lo :: real where "lo = 1 / 10 ^ 15"
  define t0 where "t0 = pi * real_of_int m / (real_of_int nrings - 1)"
  define t1 where "t1 = (if t0 < lo then lo else t0)"
  define t2 where "t2 = (if pi - lo < t1 then pi - lo else t1)"
  have d: "real_of_int nrings - 1 \<noteq> 0" using assms by auto
  have p: "lo \<le> pi - lo"
    using pi_ge_two by (simp add: lo_def)
  have "r_theta (hw_ring nrings ppring phi0 stride_lon stride_lat lmax m) = Fin t2"
    using d unfolding t2_def t1_def t0_def lo_def
    by (simp add: hw_ring_def Let_def pi_d_def dbl_ops)
  moreover have "lo \<le> t2" "t2 \<le> pi - lo"
    using p by (auto simp: t2_def t1_def)
  ultimately show ?thesis unfolding lo_def by blast
qed

lemma hw_theta_5:
  "map (\<lambda>m. r_theta (hw_ring 5 ppring phi0 stride_lon stride_lat 2 m)) [0, 1, 2, 3, 4]
     = [Fin (1 / 10 ^ 15), Fin (pi / 4), Fin (pi / 2), Fin (3 * pi / 4), Fin (pi - 1 / 10 ^ 15)]"
proof -
  have "(1::real) / 10 ^ 15 < pi / 4" "pi / 4 < pi - 1 / 10 ^ 15" "3 * pi / 4 < pi - 1 / 10 ^ 15"
       "(1::real) / 10 ^ 15 < pi - 1 / 10 ^ 15" "(1::real) / 10 ^ 15 < pi / 2"
       "pi / 2 < pi - 1 / 10 ^ 15" "(1::real) / 10 ^ 15 < 3 * pi / 4"
    using pi_ge_two by simp_all
  then show ?thesis
    by (simp add: hw_ring_def Let_def pi_d_def dbl_ops)
qed

text \<open>
  From three rings on (\<open>lmax >= 1\<close>) and for \<open>ppring > 0\<close> the Keiner-Potts weights are
  finite and positive in the exact arithmetic of the model: the term \<open>l = 0\<close> of the
  cosine series is \<open>1/2\<close>, and the absolute values of the others sum to less than that,
  since \<open>1/(4l\<^sup>2 - 1)\<close> telescopes.
\<close>

lemma foldl_dbl_sum:
  assumes "\<And>l. l \<in> set ls \<Longrightarrow> f l = Fin (g l)"
  shows "foldl (\<lambda>w l. w + f l) (Fin a) ls = Fin (a + sum_list (map g ls))"
  using assms
proof (induction ls arbitrary: a)
  case Nil
  then show ?case by simp
next
  case (Cons l ls)
  have "foldl (\<lambda>w l. w + f l) (Fin a + f l) ls = foldl (\<lambda>w l. w + f l) (Fin (a + g l)) ls"
    using Cons.prems[of l] by (simp add: dbl_ops)
  also have "\<dots> = Fin (a + g l + sum_list (map g ls))"
    using Cons.prems by (intro Cons.IH) auto
  finally show ?case by (simp add: add.assoc)
qed

lemma kp_telescope:
  "1 \<le> L \<Longrightarrow> (\<Sum>l = 1..<L. 1 / (4 * (real l)\<^sup>2 - 1)) = (real L - 1) / (2 * real L - 1)"
proof (induction L rule: nat_induct_at_least)
  case base
  then show ?case by simp
next
  case (Suc L)
  have L1: "1 \<le> real L" using Suc.hyps by simp
  have f: "4 * (real L)\<^sup>2 - 1 = (2 * real L - 1) * (2 * real L + 1)"
    by (simp add: power2_eq_square algebra_simps)
  have nz: "2 * real L - 1 \<noteq> 0" "2 * real L + 1 \<noteq> 0" using L1 by auto
  have "(\<Sum>l = 1..<Suc L. 1 / (4 * (real l)\<^sup>2 - 1))
        = (real L - 1) / (2 * real L - 1) + 1 / ((2 * real L - 1) * (2 * real L + 1))"
    using Suc by (simp add: f)
  also have "\<dots> = real L / (2 * real L + 1)"
  proof -
    define a b where "a = 2 * real L - 1" and "b = 2 * real L + 1"
    have ab: "a \<noteq> 0" "b \<noteq> 0" using nz by (simp_all add: a_def b_def)
    have "(real L - 1) / a + 1 / (a * b) = ((real L - 1) * b + 1) / (a * b)"
      using ab by (simp add: field_simps)
    also have "(real L - 1) * b + 1 = real L * a"
      by (simp add: a_def b_def algebra_simps)
    also have "real L * a / (a * b) = real L / b"
      using ab by simp
    finally show ?thesis by (simp add: a_def b_def)
  qed
  also have "\<dots> = (real (Suc L) - 1) / (2 * real (Suc L) - 1)"
    by simp
  finally show ?case .
qed


lemma kp_bound:
  assumes "1 \<le> L"
  shows "(\<Sum>l = 1..<L. 1 / (4 * (real l)\<^sup>2 - 1)) + (1 / 2) / (4 * (real L)\<^sup>2 - 1) < 1 / 2"
proof -
  define a b where "a = 2 * real L - 1" and "b = 2 * real L + 1"
  have L1: "1 \<le> real L" using assms by simp
  have ab: "0 < a" "0 < b" using L1 by (simp_all add: a_def b_def)
  have f: "4 * (real L)\<^sup>2 - 1 = a * b"
    by (simp add: a_def b_def power2_eq_square algebra_simps)
  have s: "(\<Sum>l = 1..<L. 1 / (4 * (real l)\<^sup>2 - 1)) = (real L - 1) / a"
    using kp_telescope[OF assms] by (simp add: a_def)
  have "(real L - 1) / a + (1 / 2) / (a * b) = (2 * (real L - 1) * b + 1) / (2 * a * b)"
    using ab by (simp add: field_simps)
  also have "2 * (real L - 1) * b + 1 = a * b - 2 * real L"
    by (simp add: a_def b_def algebra_simps)
  also have "(a * b - 2 * real L) / (2 * a * b) < (a * b) / (2 * a * b)"
    using ab L1 by (intro divide_strict_right_mono) auto
  also have "(a * b) / (2 * a * b) = 1 / 2"
    using ab by simp
  finally have lt: "(real L - 1) / a + (1 / 2) / (a * b) < 1 / 2" .
  show ?thesis unfolding s f by (rule lt)
qed

lemma hw_wgt_positive:
  assumes "1 \<le> lmax" "lmax \<le> 23170"
  shows "\<exists>s. foldl (\<lambda>wgt l.
                   wgt + eps l lmax / of_i (c_int (1 - 4 * l * l))
                         * c_cos ((pi_d * of_i m * of_i l) / of_i lmax))
                (Fin 0) (map int [0..<nat (lmax + 1)]) = Fin s \<and> 0 < s"
proof -
  define L where "L = nat lmax"
  have L: "1 \<le> L" "int L = lmax" "nat (lmax + 1) = Suc L"
    using assms by (auto simp: L_def)
  define g :: "int \<Rightarrow> real" where
    "g l = (if l = 0 \<or> l = lmax then 1 / 2 else if 0 < l \<and> l < lmax then 1 else 0)
           / real_of_int (1 - 4 * l * l) * cos (pi * real_of_int m * real_of_int l / real_of_int lmax)" for l
  have odd_nz: "real_of_int (1 - 4 * l * l) \<noteq> 0" for l :: int
  proof -
    have "odd (1 - 4 * l * l)" by simp
    then have "1 - 4 * l * l \<noteq> 0" by (metis even_zero)
    then show ?thesis by (simp only: of_int_eq_0_iff not_False_eq_True)
  qed
  have tm: "eps l lmax / of_i (c_int (1 - 4 * l * l))
              * c_cos ((pi_d * of_i m * of_i l) / of_i lmax) = Fin (g l)"
    if "l \<in> set (map int [0..<nat (lmax + 1)])" for l
  proof -
    from that have l: "0 \<le> l" "l \<le> 23170" using assms(2) by auto
    have "0 \<le> l * l" "l * l \<le> 536848900"
      using mult_mono[of l 23170 l 23170] l by simp_all
    then have "c_int (1 - 4 * l * l) = 1 - 4 * l * l"
      unfolding mult.assoc[of 4 l l] by (intro c_int_id; linarith)
    then show ?thesis
      using assms(1) odd_nz[of l] by (simp add: g_def eps_def pi_d_def dbl_ops)
  qed
  have fold: "foldl (\<lambda>wgt l.
                   wgt + eps l lmax / of_i (c_int (1 - 4 * l * l))
                         * c_cos ((pi_d * of_i m * of_i l) / of_i lmax))
                (Fin 0) (map int [0..<nat (lmax + 1)]) = Fin (0 + sum_list (map g (map int [0..<nat (lmax + 1)])))"
    by (rule foldl_dbl_sum) (rule tm)
  have "sum_list (map g (map int [0..<Suc L])) = (\<Sum>l<Suc L. g (int l))"
    by (simp add: interv_sum_list_conv_sum_set_nat atLeast0LessThan comp_def del: upt_Suc)
  also have "\<dots> = (\<Sum>l<L. g (int l)) + g (int L)" by simp
  also have "(\<Sum>l<L. g (int l)) = g 0 + (\<Sum>l = 1..<L. g (int l))"
    using L(1) by (simp add: lessThan_atLeast0 sum.atLeast_Suc_lessThan)
  finally have S: "sum_list (map g (map int [0..<Suc L])) = g 0 + (\<Sum>l = 1..<L. g (int l)) + g (int L)" .
  have g0: "g 0 = 1 / 2" using assms by (simp add: g_def)
  have sq: "real_of_int (1 - 4 * int l * int l) = - (4 * (real l)\<^sup>2 - 1)" for l :: nat
    by (simp add: power2_eq_square)
  have pos: "0 < 4 * (real l)\<^sup>2 - 1" if "1 \<le> l" for l :: nat
  proof -
    have "1 \<le> real l" using that by simp
    then have "1 \<le> (real l)\<^sup>2" by (rule one_le_power)
    then show ?thesis by simp
  qed
  have mid: "\<bar>g (int l)\<bar> \<le> 1 / (4 * (real l)\<^sup>2 - 1)" if "l \<in> {1..<L}" for l
  proof -
    from that have l: "1 \<le> l" "int l \<noteq> 0" "int l \<noteq> lmax" "0 < int l" "int l < lmax"
      using L(2) by auto
    define d where "d = 4 * (real l)\<^sup>2 - 1"
    define c where "c = cos (pi * real_of_int m * real_of_int (int l) / real_of_int lmax)"
    have d: "0 < d" using pos[OF l(1)] by (simp add: d_def)
    have "g (int l) = 1 / (- d) * c"
      using l by (simp add: g_def d_def c_def power2_eq_square)
    then have "\<bar>g (int l)\<bar> = \<bar>c\<bar> / d"
      using d by (simp add: abs_mult)
    also have "\<dots> \<le> 1 / d"
      using d by (intro divide_right_mono) (auto simp: c_def)
    finally show ?thesis by (simp add: d_def)
  qed
  have last: "\<bar>g (int L)\<bar> \<le> (1 / 2) / (4 * (real L)\<^sup>2 - 1)"
  proof -
    define d where "d = 4 * (real L)\<^sup>2 - 1"
    define c where "c = cos (pi * real_of_int m * real_of_int (int L) / real_of_int lmax)"
    have d: "0 < d" using pos[OF L(1)] by (simp add: d_def)
    have "g (int L) = (1 / 2) / (- d) * c"
      using L(1) by (simp add: g_def d_def c_def power2_eq_square L(2)[symmetric])
    then have "\<bar>g (int L)\<bar> = (1 / 2) * \<bar>c\<bar> / d"
      using d by (simp add: abs_mult)
    also have "\<dots> \<le> (1 / 2) * 1 / d"
      using d by (intro divide_right_mono mult_left_mono) (auto simp: c_def)
    finally show ?thesis by (simp add: d_def)
  qed
  have "\<bar>\<Sum>l = 1..<L. g (int l)\<bar> \<le> (\<Sum>l = 1..<L. \<bar>g (int l)\<bar>)" by (rule sum_abs)
  also have "\<dots> \<le> (\<Sum>l = 1..<L. 1 / (4 * (real l)\<^sup>2 - 1))"
    by (rule sum_mono) (rule mid)
  finally have "\<bar>\<Sum>l = 1..<L. g (int l)\<bar> + \<bar>g (int L)\<bar> < 1 / 2"
    using last kp_bound[OF L(1)] by linarith
  then have "0 < g 0 + (\<Sum>l = 1..<L. g (int l)) + g (int L)"
    using g0 by linarith
  then show ?thesis
    using fold S L(3) by simp
qed

lemma hw_weight_positive:
  assumes "1 \<le> lmax" "lmax \<le> 23170" "0 \<le> m" "m \<le> 2 * lmax" "0 < ppring"
  shows "\<exists>w. r_weight (hw_ring nrings ppring phi0 stride_lon stride_lat lmax m) = Fin w \<and> 0 < w"
proof -
  obtain s where s: "foldl (\<lambda>wgt l.
                   wgt + eps l lmax / of_i (c_int (1 - 4 * l * l))
                         * c_cos ((pi_d * of_i m * of_i l) / of_i lmax))
                (Fin 0) (map int [0..<nat (lmax + 1)]) = Fin s" "0 < s"
    using hw_wgt_positive[OF assms(1,2)] by blast
  have c: "c_int (2 * lmax) = 2 * lmax"
    using assms(1,2) by (intro c_int_id) auto
  have "eps m (2 * lmax) = Fin (1 / 2) \<or> eps m (2 * lmax) = Fin 1"
    using assms(3,4) by (auto simp: eps_def)
  then obtain e where e: "eps m (2 * lmax) = Fin e" "0 < e"
    by (elim disjE) (rule that[of "1 / 2"], simp, simp, rule that[of 1], simp, simp)
  have "r_weight (hw_ring nrings ppring phi0 stride_lon stride_lat lmax m)
        = Fin 4 * pi_d * eps m (2 * lmax) / of_i lmax
          * foldl (\<lambda>wgt l.
                   wgt + eps l lmax / of_i (c_int (1 - 4 * l * l))
                         * c_cos ((pi_d * of_i m * of_i l) / of_i lmax))
                (Fin 0) (map int [0..<nat (lmax + 1)])
          / of_i ppring"
    by (simp add: hw_ring_def Let_def c)
  also have "\<dots> = Fin 4 * pi_d * Fin e / of_i lmax * Fin s / of_i ppring"
    by (simp only: s e)
  also have "\<dots> = Fin (4 * pi * e / real_of_int lmax * s / real_of_int ppring)"
    using assms(1,5) by (simp add: pi_d_def dbl_ops)
  finally have "r_weight (hw_ring nrings ppring phi0 stride_lon stride_lat lmax m)
        = Fin (4 * pi * e / real_of_int lmax * s / real_of_int ppring)" .
  moreover have "0 < 4 * pi * e / real_of_int lmax * s / real_of_int ppring"
    using assms(1,5) e(2) s(2) by simp
  ultimately show ?thesis by blast
qed


lemma for_rings_pure:
  "for_rings (\<lambda>m. Inr (f m)) ms = Inr (map (\<lambda>m. f (int m)) ms)"
  by (induction ms) simp_all

lemma hw_rings:
  assumes "odd nrings"
  shows "sharp_make_hw_geom_info nrings ppring phi0 stride_lon stride_lat
         = Inr (sharp_make_geom_info nrings
             (map (\<lambda>m. hw_ring nrings ppring phi0 stride_lon stride_lat (c_div (c_int (nrings - 1)) 2) (int m))
                [0..<nat nrings]))"
  using assms
  by (simp add: sharp_make_hw_geom_info_def UTIL_ASSERT_def and_1_hw for_rings_pure)

lemma hw_from_three_rings:
  assumes "odd nrings" "3 \<le> nrings" "nrings \<le> 46341" "0 < ppring"
  shows "\<exists>g. sharp_make_hw_geom_info nrings ppring phi0 stride_lon stride_lat = Inr g
           \<and> length (g_theta g) = nat nrings \<and> length (g_weight g) = nat nrings
           \<and> list_all (\<lambda>t. Fin (1 / 10 ^ 15) \<le> t \<and> t \<le> pi_d - Fin (1 / 10 ^ 15)) (g_theta g)
           \<and> list_all (\<lambda>w. isfinite w \<and> Fin 0 < w) (g_weight g)"
proof -
  define lmax where "lmax = c_div (c_int (nrings - 1)) 2"
  have "c_int (nrings - 1) = nrings - 1"
    using assms(2,3) by (intro c_int_id) auto
  then have lmax: "1 \<le> lmax" "2 * lmax = nrings - 1" "lmax \<le> 23170"
    using assms(1,2,3) by (auto simp: lmax_def c_div_2)
  let ?r = "\<lambda>m. hw_ring nrings ppring phi0 stride_lon stride_lat lmax (int m)"
  have th: "Fin (1 / 10 ^ 15) \<le> r_theta (?r m) \<and> r_theta (?r m) \<le> pi_d - Fin (1 / 10 ^ 15)" for m
    using hw_theta_clamped[of nrings ppring phi0 stride_lon stride_lat lmax "int m"] assms(2)
    by (auto simp: pi_d_def dbl_ops)
  have w: "isfinite (r_weight (?r m)) \<and> Fin 0 < r_weight (?r m)" if "m < nat nrings" for m
  proof -
    have "int m \<le> 2 * lmax" using that lmax(2) by linarith
    then obtain v where "r_weight (?r m) = Fin v" "0 < v"
      using hw_weight_positive[of lmax "int m" ppring nrings phi0 stride_lon stride_lat]
        lmax(1,3) assms(4) by auto
    then show ?thesis by simp
  qed
  show ?thesis
    unfolding hw_rings[OF assms(1)] lmax_def[symmetric]
    using th w by (simp add: sharp_make_geom_info_def list_all_iff)
qed

end
